theory Spec2Isabelle
  imports Main "HOL-Library.Code_Target_Nat"
begin

section \<open>The element type and the allocator\<close>

text \<open>
  \<^verbatim>\<open>Vector<T>\<close> is a template: what the copy and move operations of \<open>T\<close> do, whether
  they throw, and whether \<^verbatim>\<open>operator new\<close> throws, is decided outside \<^verbatim>\<open>vector.h\<close>.
  The model takes all of it as a parameter \<open>E\<close>.

  \<^item> \<open>is_nothrow_move_constructible\<close>, \<open>is_copy_constructible\<close>: the two type traits read
    by \<^verbatim>\<open>UninitializedMoveOrCopy\<close>.
  \<^item> \<open>copy_ctor_throws x\<close> and the three fields after it: the operation throws when its
    source operand holds the value \<open>x\<close>. A copy produces an equal value; a move produces
    the value in the target and leaves \<open>moved_from x\<close> in the source.
  \<^item> \<open>value_init\<close>: the result of \<^verbatim>\<open>T()\<close>, \<open>None\<close> when it throws.
  \<^item> \<open>sizeof_T\<close>: the value of \<^verbatim>\<open>sizeof(T)\<close>, in bytes.
  \<^item> \<open>alloc_fails b\<close>: \<^verbatim>\<open>operator new(b)\<close> throws \<^verbatim>\<open>std::bad_alloc\<close>, for a request of
    \<open>b\<close> bytes.

  Sizes, capacities and cursors are natural numbers. \<^verbatim>\<open>++size_\<close> and \<^verbatim>\<open>size_ * 2\<close>
  are written without wrap-around: they wrap only from \<open>2^63\<close> live elements on, and
  no array is larger than \<^verbatim>\<open>PTRDIFF_MAX\<close> bytes. The one subtraction that can wrap,
  \<^verbatim>\<open>size_ - 1\<close> in \<^verbatim>\<open>PopBack\<close>, is written with \<open>size_t_sub\<close>. The product
  \<^verbatim>\<open>n * sizeof(T)\<close> of \<^verbatim>\<open>Allocate\<close>, whose factor \<open>n\<close> comes from the caller in
  \<^verbatim>\<open>Reserve\<close>, \<^verbatim>\<open>Resize\<close> and \<^verbatim>\<open>Vector(size_t)\<close>, is written with \<open>size_t_mul\<close>:
  \<^verbatim>\<open>size_t\<close> has 64 bits.
\<close>

datatype exn = bad_alloc | element_exception

record 'a env =
  is_nothrow_move_constructible :: bool
  is_copy_constructible :: bool
  copy_ctor_throws :: "'a \<Rightarrow> bool"
  move_ctor_throws :: "'a \<Rightarrow> bool"
  copy_assign_throws :: "'a \<Rightarrow> bool"
  move_assign_throws :: "'a \<Rightarrow> bool"
  moved_from :: "'a \<Rightarrow> 'a"
  value_init :: "'a option"
  sizeof_T :: nat
  alloc_fails :: "nat \<Rightarrow> bool"

definition size_t_sub :: "nat \<Rightarrow> nat \<Rightarrow> nat" where
  "size_t_sub a b = (if b \<le> a then a - b else a + 2 ^ 64 - b)"

definition size_t_mul :: "nat \<Rightarrow> nat \<Rightarrow> nat" where
  "size_t_mul a b = (a * b) mod 2 ^ 64"

section \<open>RawMemory\<close>

text \<open>
  Memory is a list of slots: a slot is \<open>None\<close> while it is raw memory and \<open>Some x\<close>
  while it holds a live object of value \<open>x\<close>. A pointer into a block is the index of its
  slot; there is no slot, and so no object, outside the block.
\<close>

type_synonym 'a block = "'a option list"

text \<open>
  A \<^verbatim>\<open>RawMemory<T>\<close> has the members \<^verbatim>\<open>buffer_\<close> and \<^verbatim>\<open>capacity_\<close>: \<open>buffer_m\<close> is
  the block \<^verbatim>\<open>buffer_\<close> points to, the empty block for \<^verbatim>\<open>nullptr\<close>.
\<close>

record 'a RawMemory =
  buffer_m :: "'a block"
  capacity_m :: nat

definition RawMemory_default :: "'a RawMemory" where
  "RawMemory_default = \<lparr>buffer_m = [], capacity_m = 0\<rparr>"

definition Capacity :: "'a RawMemory \<Rightarrow> nat" where
  "Capacity m = capacity_m m"

text \<open>
  \<^verbatim>\<open>Allocate(n)\<close> does not call \<^verbatim>\<open>operator new\<close> for \<open>n = 0\<close>. Otherwise it asks for
  \<^verbatim>\<open>n * sizeof(T)\<close> bytes, a product in \<^verbatim>\<open>size_t\<close>, and the block it gets has room for
  as many objects of type \<open>T\<close> as fit into that many bytes: fewer than \<open>n\<close> when the
  product has wrapped. The constructor stores \<open>n\<close> as \<^verbatim>\<open>capacity_\<close> in either case.
\<close>

definition Allocate :: "'a env \<Rightarrow> nat \<Rightarrow> 'a block option" where
  "Allocate E n =
     (if n \<noteq> 0 then
        (if alloc_fails E (size_t_mul n (sizeof_T E)) then None
         else Some (replicate (size_t_mul n (sizeof_T E) div sizeof_T E) None))
      else Some [])"

definition RawMemory_ctor :: "'a env \<Rightarrow> nat \<Rightarrow> 'a RawMemory option" where
  "RawMemory_ctor E capacity =
     (case Allocate E capacity of
        None \<Rightarrow> None
      | Some b \<Rightarrow> Some \<lparr>buffer_m = b, capacity_m = capacity\<rparr>)"

text \<open>
  Placement new at slot \<open>i\<close>, and the destructor call on slot \<open>i\<close>. \<open>None\<close> is undefined
  behaviour: a write outside the block, or the destructor of an object that does not exist.
\<close>

definition construct_at :: "'a block \<Rightarrow> nat \<Rightarrow> 'a \<Rightarrow> 'a block option" where
  "construct_at m i x = (if i < length m then Some (m[i := Some x]) else None)"

definition destroy_at :: "'a block \<Rightarrow> nat \<Rightarrow> 'a block option" where
  "destroy_at m i = (if i < length m \<and> m ! i \<noteq> None then Some (m[i := None]) else None)"

section \<open>The standard algorithms the container calls\<close>

text \<open>
  A loop over slots ends in \<open>Inr\<close> with the blocks it leaves, in \<open>Inl UB\<close> on undefined
  behaviour, or in \<open>Inl (Throw s)\<close> when an operation of \<open>T\<close> throws, with the blocks as
  they are when the exception leaves the algorithm.
\<close>

datatype 's fault = UB | Throw 's

fun destroy_n :: "'a block \<Rightarrow> nat \<Rightarrow> nat \<Rightarrow> 'a block option" where
  "destroy_n m first 0 = Some m"
| "destroy_n m first (Suc n) =
     (case destroy_at m first of
        None \<Rightarrow> None
      | Some m' \<Rightarrow> destroy_n m' (Suc first) n)"

text \<open>
  The \<^verbatim>\<open>uninitialized_*\<close> algorithms destroy what they have constructed before they
  rethrow; each level of the recursion takes back its own slot on the way out.
\<close>

fun uninitialized_value_construct_n ::
  "'a env \<Rightarrow> 'a block \<Rightarrow> nat \<Rightarrow> nat \<Rightarrow> 'a block fault + 'a block" where
  "uninitialized_value_construct_n E m first 0 = Inr m"
| "uninitialized_value_construct_n E m first (Suc n) =
     (case value_init E of
        None \<Rightarrow> Inl (Throw m)
      | Some x \<Rightarrow>
          (case construct_at m first x of
             None \<Rightarrow> Inl UB
           | Some m1 \<Rightarrow>
               (case uninitialized_value_construct_n E m1 (Suc first) n of
                  Inl UB \<Rightarrow> Inl UB
                | Inl (Throw m2) \<Rightarrow> Inl (Throw (m2[first := None]))
                | Inr m2 \<Rightarrow> Inr m2)))"

fun uninitialized_copy_n ::
  "'a env \<Rightarrow> 'a block \<Rightarrow> nat \<Rightarrow> nat \<Rightarrow> 'a block \<Rightarrow> nat \<Rightarrow>
     'a block fault + 'a block" where
  "uninitialized_copy_n E src first 0 dst d = Inr dst"
| "uninitialized_copy_n E src first (Suc n) dst d =
     (if first < length src then
        (case src ! first of
           None \<Rightarrow> Inl UB
         | Some x \<Rightarrow>
             if copy_ctor_throws E x then Inl (Throw dst)
             else
               (case construct_at dst d x of
                  None \<Rightarrow> Inl UB
                | Some dst1 \<Rightarrow>
                    (case uninitialized_copy_n E src (Suc first) n dst1 (Suc d) of
                       Inl UB \<Rightarrow> Inl UB
                     | Inl (Throw dst2) \<Rightarrow> Inl (Throw (dst2[d := None]))
                     | Inr dst2 \<Rightarrow> Inr dst2)))
      else Inl UB)"

fun uninitialized_move_n ::
  "'a env \<Rightarrow> 'a block \<Rightarrow> nat \<Rightarrow> nat \<Rightarrow> 'a block \<Rightarrow> nat \<Rightarrow>
     ('a block \<times> 'a block) fault + ('a block \<times> 'a block)" where
  "uninitialized_move_n E src first 0 dst d = Inr (src, dst)"
| "uninitialized_move_n E src first (Suc n) dst d =
     (if first < length src then
        (case src ! first of
           None \<Rightarrow> Inl UB
         | Some x \<Rightarrow>
             if move_ctor_throws E x then Inl (Throw (src, dst))
             else
               (case construct_at dst d x of
                  None \<Rightarrow> Inl UB
                | Some dst1 \<Rightarrow>
                    (case uninitialized_move_n E (src[first := Some (moved_from E x)])
                            (Suc first) n dst1 (Suc d) of
                       Inl UB \<Rightarrow> Inl UB
                     | Inl (Throw (src2, dst2)) \<Rightarrow> Inl (Throw (src2, dst2[d := None]))
                     | Inr r \<Rightarrow> Inr r)))
      else Inl UB)"

text \<open>
  \<^verbatim>\<open>std::copy\<close> from one block into another: copy assignment, slot by slot; the target
  of an assignment must be a live object.
\<close>

fun std_copy ::
  "'a env \<Rightarrow> 'a block \<Rightarrow> nat \<Rightarrow> nat \<Rightarrow> 'a block \<Rightarrow> nat \<Rightarrow>
     'a block fault + 'a block" where
  "std_copy E src first 0 dst d = Inr dst"
| "std_copy E src first (Suc n) dst d =
     (if first < length src \<and> d < length dst then
        (case (src ! first, dst ! d) of
           (Some x, Some y) \<Rightarrow>
             if copy_assign_throws E x then Inl (Throw dst)
             else std_copy E src (Suc first) n (dst[d := Some x]) (Suc d)
         | _ \<Rightarrow> Inl UB)
      else Inl UB)"

text \<open>
  \<^verbatim>\<open>std::move(first, first + n, d)\<close> and \<^verbatim>\<open>std::move_backward(last - n, last, d_last)\<close>
  inside one block: move assignment, front to back and back to front.
\<close>

fun std_move ::
  "'a env \<Rightarrow> 'a block \<Rightarrow> nat \<Rightarrow> nat \<Rightarrow> nat \<Rightarrow> 'a block fault + 'a block" where
  "std_move E m first 0 d = Inr m"
| "std_move E m first (Suc n) d =
     (if first < length m \<and> d < length m then
        (case (m ! first, m ! d) of
           (Some x, Some y) \<Rightarrow>
             if move_assign_throws E x then Inl (Throw m)
             else std_move E (m[d := Some x, first := Some (moved_from E x)]) (Suc first) n (Suc d)
         | _ \<Rightarrow> Inl UB)
      else Inl UB)"

fun std_move_backward ::
  "'a env \<Rightarrow> 'a block \<Rightarrow> nat \<Rightarrow> nat \<Rightarrow> nat \<Rightarrow> 'a block fault + 'a block" where
  "std_move_backward E m last_it 0 d_last = Inr m"
| "std_move_backward E m last_it (Suc n) d_last =
     (if 0 < last_it \<and> last_it - 1 < length m \<and> 0 < d_last \<and> d_last - 1 < length m then
        (case (m ! (last_it - 1), m ! (d_last - 1)) of
           (Some x, Some y) \<Rightarrow>
             if move_assign_throws E x then Inl (Throw m)
             else std_move_backward E
                    (m[d_last - 1 := Some x, last_it - 1 := Some (moved_from E x)])
                    (last_it - 1) n (d_last - 1)
         | _ \<Rightarrow> Inl UB)
      else Inl UB)"

section \<open>Vector\<close>

record 'a Vector =
  data_m :: "'a RawMemory"
  size_m :: nat

text \<open>
  The members \<^verbatim>\<open>data_\<close> and \<^verbatim>\<open>size_\<close> are \<open>data_m\<close> and \<open>size_m\<close>; \<open>slots v\<close> is the
  memory \<^verbatim>\<open>data_.GetAddress()\<close> points to. A cursor (\<^verbatim>\<open>iterator\<close>, \<^verbatim>\<open>const_iterator\<close>)
  is the offset of its slot from \<^verbatim>\<open>data_.GetAddress()\<close>.
\<close>

abbreviation slots :: "'a Vector \<Rightarrow> 'a block" where
  "slots v \<equiv> buffer_m (data_m v)"

text \<open>
  A member function ends in \<open>Inr\<close> with the container it leaves (and what it returns), or
  in \<open>Inl\<close>: a failed \<^verbatim>\<open>assert\<close> (the model is the debug build), undefined behaviour, or an
  exception. \<open>Threw e v blk\<close> carries the container \<open>v\<close> as the caller finds it and the
  slots of the function's local block \<^verbatim>\<open>new_data\<close> at the moment its destructor
  releases it (\<open>[]\<close> when there is no such block): a slot that is still \<open>Some x\<close> there is
  an object whose destructor never runs.
\<close>

datatype ('s, 'a) abort =
    AssertionFailed
  | UndefinedBehaviour
  | Threw exn 's "'a block"

definition Vector_default :: "'a Vector" where
  "Vector_default = \<lparr>data_m = RawMemory_default, size_m = 0\<rparr>"

definition Vector_begin :: "'a Vector \<Rightarrow> nat" where
  [simp]: "Vector_begin v = 0"

definition Vector_end :: "'a Vector \<Rightarrow> nat" where
  [simp]: "Vector_end v = 0 + size_m v"

text \<open>
  \<^verbatim>\<open>UninitializedMoveOrCopy(from, size, to)\<close>, from a slot of \<open>src\<close> to a slot of the
  other block \<open>dst\<close>; both blocks are returned.
\<close>

definition UninitializedMoveOrCopy ::
  "'a env \<Rightarrow> 'a block \<Rightarrow> nat \<Rightarrow> nat \<Rightarrow> 'a block \<Rightarrow> nat \<Rightarrow>
     ('a block \<times> 'a block) fault + ('a block \<times> 'a block)" where
  "UninitializedMoveOrCopy E src from n dst to =
     (if is_nothrow_move_constructible E \<or> \<not> is_copy_constructible E then
        uninitialized_move_n E src from n dst to
      else
        (case uninitialized_copy_n E src from n dst to of
           Inl UB \<Rightarrow> Inl UB
         | Inl (Throw dst') \<Rightarrow> Inl (Throw (src, dst'))
         | Inr dst' \<Rightarrow> Inr (src, dst')))"

text \<open>
  \<^verbatim>\<open>return data_[size_ - 1]\<close>: \<^verbatim>\<open>RawMemory::operator[]\<close> asserts \<open>index < capacity_\<close>;
  the reference is the index of the slot.
\<close>

definition RawMemory_index :: "'a RawMemory \<Rightarrow> nat \<Rightarrow> ('s, 'a) abort + nat" where
  "RawMemory_index m i = (if i < Capacity m then Inr i else Inl AssertionFailed)"

text \<open>
  \<^verbatim>\<open>EmplaceBack(args...)\<close>. The argument \<open>arg\<close> is the outcome of \<^verbatim>\<open>T(std::forward<Args>(args)...)\<close>:
  \<open>Some x\<close> when the constructor makes an object of value \<open>x\<close>, \<open>None\<close> when it throws.
  The blocks \<open>b1\<close>, \<open>b2\<close>, ... are the memory of the local \<^verbatim>\<open>new_data\<close> after each write.
\<close>

definition EmplaceBack ::
  "'a env \<Rightarrow> 'a Vector \<Rightarrow> 'a option \<Rightarrow> ('a Vector, 'a) abort + ('a Vector \<times> nat)" where
  "EmplaceBack E v arg =
     (if size_m v < Capacity (data_m v) then
        (case arg of
           None \<Rightarrow> Inl (Threw element_exception v [])
         | Some x \<Rightarrow>
             (case construct_at (slots v) (size_m v) x of
                None \<Rightarrow> Inl UndefinedBehaviour
              | Some m \<Rightarrow>
                  (case RawMemory_index (data_m v) (size_m v + 1 - 1) of
                     Inl e \<Rightarrow> Inl e
                   | Inr r \<Rightarrow>
                       Inr (\<lparr>data_m = (data_m v)\<lparr>buffer_m := m\<rparr>, size_m = size_m v + 1\<rparr>, r))))
      else
        (let new_capacity = (if size_m v = 0 then 1 else size_m v * 2) in
         case RawMemory_ctor E new_capacity of
           None \<Rightarrow> Inl (Threw bad_alloc v [])
         | Some new_data \<Rightarrow>
             (case arg of
                None \<Rightarrow> Inl (Threw element_exception v (buffer_m new_data))
              | Some x \<Rightarrow>
                  (case construct_at (buffer_m new_data) (size_m v) x of
                     None \<Rightarrow> Inl UndefinedBehaviour
                   | Some b1 \<Rightarrow>
                       (case UninitializedMoveOrCopy E (slots v) (Vector_begin v) (size_m v) b1 0 of
                          Inl UB \<Rightarrow> Inl UndefinedBehaviour
                        | Inl (Throw (old, b2)) \<Rightarrow>
                            Inl (Threw element_exception
                                   (v\<lparr>data_m := (data_m v)\<lparr>buffer_m := old\<rparr>\<rparr>) b2)
                        | Inr (old, b2) \<Rightarrow>
                            (case destroy_n old (Vector_begin v) (size_m v) of
                               None \<Rightarrow> Inl UndefinedBehaviour
                             | Some old1 \<Rightarrow>
                                 (case RawMemory_index new_data (size_m v + 1 - 1) of
                                    Inl e \<Rightarrow> Inl e
                                  | Inr r \<Rightarrow>
                                      Inr (\<lparr>data_m = new_data\<lparr>buffer_m := b2\<rparr>,
                                            size_m = size_m v + 1\<rparr>, r))))))))"

text \<open>
  \<^verbatim>\<open>PushBack(V&& value)\<close> and \<^verbatim>\<open>Insert(pos, V&& value)\<close> forward \<open>value\<close> to the
  constructor of \<open>T\<close>: the copy constructor for an lvalue, the move constructor for an
  rvalue.
\<close>

datatype 'a forwarded = Lvalue 'a | Rvalue 'a

fun construct_from :: "'a env \<Rightarrow> 'a forwarded \<Rightarrow> 'a option" where
  "construct_from E (Lvalue x) = (if copy_ctor_throws E x then None else Some x)"
| "construct_from E (Rvalue x) = (if move_ctor_throws E x then None else Some x)"

definition PushBack ::
  "'a env \<Rightarrow> 'a Vector \<Rightarrow> 'a forwarded \<Rightarrow> ('a Vector, 'a) abort + 'a Vector" where
  "PushBack E v val =
     (case EmplaceBack E v (construct_from E val) of
        Inl e \<Rightarrow> Inl e
      | Inr (v', r) \<Rightarrow> Inr v')"

text \<open>
  \<^verbatim>\<open>Emplace(pos, args...)\<close>. \<^verbatim>\<open>pos >= begin()\<close> holds of every cursor. The value of
  \<^verbatim>\<open>after\<close> is read only where \<open>pos < size_m v\<close>, where the subtraction does not wrap.
\<close>

definition Emplace ::
  "'a env \<Rightarrow> 'a Vector \<Rightarrow> nat \<Rightarrow> 'a option \<Rightarrow> ('a Vector, 'a) abort + ('a Vector \<times> nat)" where
  "Emplace E v pos arg =
     (if \<not> (Vector_begin v \<le> pos \<and> pos \<le> Vector_end v) then Inl AssertionFailed
      else
        (let before = pos - Vector_begin v; after = Vector_end v - pos - 1 in
         if pos = Vector_end v then
           (case EmplaceBack E v arg of
              Inl e \<Rightarrow> Inl e
            | Inr (v', r) \<Rightarrow> Inr (v', before))
         else if size_m v < Capacity (data_m v) then
           (case arg of
              None \<Rightarrow> Inl (Threw element_exception v [])
            | Some tmp \<Rightarrow>
                (if Vector_end v - 1 < length (slots v) then
                   (case slots v ! (Vector_end v - 1) of
                      None \<Rightarrow> Inl UndefinedBehaviour
                    | Some back \<Rightarrow>
                        if move_ctor_throws E back then Inl (Threw element_exception v [])
                        else
                          (case construct_at ((slots v)[Vector_end v - 1 := Some (moved_from E back)])
                                  (size_m v) back of
                             None \<Rightarrow> Inl UndefinedBehaviour
                           | Some m1 \<Rightarrow>
                               (case std_move_backward E m1 (Vector_end v - 1)
                                       (Vector_end v - 1 - pos) (Vector_end v) of
                                  Inl UB \<Rightarrow> Inl UndefinedBehaviour
                                | Inl (Throw m2) \<Rightarrow>
                                    Inl (Threw element_exception
                                           (v\<lparr>data_m := (data_m v)\<lparr>buffer_m := m2\<rparr>\<rparr>) [])
                                | Inr m2 \<Rightarrow>
                                    (case RawMemory_index (data_m v) before of
                                       Inl e \<Rightarrow> Inl e
                                     | Inr r \<Rightarrow>
                                         (if r < length m2 then
                                            (case m2 ! r of
                                               None \<Rightarrow> Inl UndefinedBehaviour
                                             | Some y \<Rightarrow>
                                                 if move_assign_throws E tmp
                                                 then Inl (Threw element_exception
                                                        (v\<lparr>data_m := (data_m v)\<lparr>buffer_m := m2\<rparr>\<rparr>) [])
                                                 else Inr (\<lparr>data_m = (data_m v)\<lparr>buffer_m := m2[r := Some tmp]\<rparr>,
                                                            size_m = size_m v + 1\<rparr>, before))
                                          else Inl UndefinedBehaviour)))))
                 else Inl UndefinedBehaviour))
         else
           (let new_capacity = (if size_m v = 0 then 1 else size_m v * 2) in
            case RawMemory_ctor E new_capacity of
              None \<Rightarrow> Inl (Threw bad_alloc v [])
            | Some new_data \<Rightarrow>
                (case arg of
                   None \<Rightarrow> Inl (Threw element_exception v (buffer_m new_data))
                 | Some x \<Rightarrow>
                     (case construct_at (buffer_m new_data) before x of
                        None \<Rightarrow> Inl UndefinedBehaviour
                      | Some b1 \<Rightarrow>
                          (case UninitializedMoveOrCopy E (slots v) (Vector_begin v) before b1 0 of
                             Inl UB \<Rightarrow> Inl UndefinedBehaviour
                           | Inl (Throw (old1, b2)) \<Rightarrow>
                               (case destroy_at b2 (size_m v) of
                                  None \<Rightarrow> Inl UndefinedBehaviour
                                | Some b3 \<Rightarrow>
                                    Inl (Threw element_exception
                                           (v\<lparr>data_m := (data_m v)\<lparr>buffer_m := old1\<rparr>\<rparr>) b3))
                           | Inr (old1, b2) \<Rightarrow>
                               (case UninitializedMoveOrCopy E old1 pos (after + 1)
                                       b2 (before + 1) of
                                  Inl UB \<Rightarrow> Inl UndefinedBehaviour
                                | Inl (Throw (old2, b3)) \<Rightarrow>
                                    (case destroy_n b3 0 before of
                                       None \<Rightarrow> Inl UndefinedBehaviour
                                     | Some b4 \<Rightarrow>
                                         Inl (Threw element_exception
                                                (v\<lparr>data_m := (data_m v)\<lparr>buffer_m := old2\<rparr>\<rparr>) b4))
                                | Inr (old2, b3) \<Rightarrow>
                                    (case destroy_n old2 (Vector_begin v) (size_m v) of
                                       None \<Rightarrow> Inl UndefinedBehaviour
                                     | Some old3 \<Rightarrow>
                                         Inr (\<lparr>data_m = new_data\<lparr>buffer_m := b3\<rparr>,
                                               size_m = size_m v + 1\<rparr>, before)))))))))"

definition Insert ::
  "'a env \<Rightarrow> 'a Vector \<Rightarrow> nat \<Rightarrow> 'a forwarded \<Rightarrow> ('a Vector, 'a) abort + ('a Vector \<times> nat)" where
  "Insert E v pos val = Emplace E v pos (construct_from E val)"

text \<open>\<^verbatim>\<open>PopBack()\<close>: no assertion; \<^verbatim>\<open>size_ - 1\<close> is \<^verbatim>\<open>size_t\<close> arithmetic.\<close>

definition PopBack :: "'a Vector \<Rightarrow> ('a Vector, 'a) abort + 'a Vector" where
  "PopBack v =
     (case destroy_n (slots v) (Vector_begin v + size_t_sub (size_m v) 1) 1 of
        None \<Rightarrow> Inl UndefinedBehaviour
      | Some m \<Rightarrow>
          Inr \<lparr>data_m = (data_m v)\<lparr>buffer_m := m\<rparr>, size_m = size_t_sub (size_m v) 1\<rparr>)"

text \<open>\<^verbatim>\<open>Erase(pos)\<close>.\<close>

definition Erase ::
  "'a env \<Rightarrow> 'a Vector \<Rightarrow> nat \<Rightarrow> ('a Vector, 'a) abort + ('a Vector \<times> nat)" where
  "Erase E v pos =
     (if \<not> (Vector_begin v \<le> pos \<and> pos < Vector_end v) then Inl AssertionFailed
      else
        (case std_move E (slots v) (pos + 1) (Vector_end v - (pos + 1)) pos of
           Inl UB \<Rightarrow> Inl UndefinedBehaviour
         | Inl (Throw m) \<Rightarrow>
             Inl (Threw element_exception (v\<lparr>data_m := (data_m v)\<lparr>buffer_m := m\<rparr>\<rparr>) [])
         | Inr m \<Rightarrow>
             (case destroy_at m (Vector_end v - 1) of
                None \<Rightarrow> Inl UndefinedBehaviour
              | Some m' \<Rightarrow>
                  Inr (\<lparr>data_m = (data_m v)\<lparr>buffer_m := m'\<rparr>, size_m = size_m v - 1\<rparr>, pos))))"

text \<open>
  The constructors. A constructor that throws leaves no object, so its \<open>Threw\<close> carries
  \<open>()\<close> and the block the member \<^verbatim>\<open>data_\<close> releases.
\<close>

definition Vector_sized :: "'a env \<Rightarrow> nat \<Rightarrow> (unit, 'a) abort + 'a Vector" where
  "Vector_sized E n =
     (case RawMemory_ctor E n of
        None \<Rightarrow> Inl (Threw bad_alloc () [])
      | Some data \<Rightarrow>
          (case uninitialized_value_construct_n E (buffer_m data) 0 n of
             Inl UB \<Rightarrow> Inl UndefinedBehaviour
           | Inl (Throw m') \<Rightarrow> Inl (Threw element_exception () m')
           | Inr m' \<Rightarrow> Inr \<lparr>data_m = data\<lparr>buffer_m := m'\<rparr>, size_m = n\<rparr>))"

definition Vector_copy :: "'a env \<Rightarrow> 'a Vector \<Rightarrow> (unit, 'a) abort + 'a Vector" where
  "Vector_copy E other =
     (case RawMemory_ctor E (size_m other) of
        None \<Rightarrow> Inl (Threw bad_alloc () [])
      | Some data \<Rightarrow>
          (case uninitialized_copy_n E (slots other) (Vector_begin other) (size_m other)
                  (buffer_m data) 0 of
             Inl UB \<Rightarrow> Inl UndefinedBehaviour
           | Inl (Throw m') \<Rightarrow> Inl (Threw element_exception () m')
           | Inr m' \<Rightarrow> Inr \<lparr>data_m = data\<lparr>buffer_m := m'\<rparr>, size_m = size_m other\<rparr>))"

text \<open>The move constructor returns the new object and what is left of \<open>other\<close>.\<close>

definition Vector_move :: "'a Vector \<Rightarrow> 'a Vector \<times> 'a Vector" where
  "Vector_move other =
     (\<lparr>data_m = data_m other, size_m = size_m other\<rparr>,
      \<lparr>data_m = RawMemory_default, size_m = 0\<rparr>)"

text \<open>The destructor: the block it releases, \<open>None\<close> on undefined behaviour.\<close>

definition Vector_dtor :: "'a Vector \<Rightarrow> 'a block option" where
  "Vector_dtor v = destroy_n (slots v) (Vector_begin v) (size_m v)"

text \<open>\<^verbatim>\<open>Swap(other)\<close> returns both containers, \<^verbatim>\<open>*this\<close> first.\<close>

definition Swap :: "'a Vector \<Rightarrow> 'a Vector \<Rightarrow> 'a Vector \<times> 'a Vector" where
  "Swap v other =
     (\<lparr>data_m = data_m other, size_m = size_m other\<rparr>, \<lparr>data_m = data_m v, size_m = size_m v\<rparr>)"

text \<open>
  The two assignment operators, for \<^verbatim>\<open>this != &rhs\<close>; on self-assignment neither executes
  anything. \<^verbatim>\<open>rhs\<close> of the copy assignment is \<^verbatim>\<open>const\<close> and is not returned; the move
  assignment returns \<^verbatim>\<open>*this\<close> and what is left of \<^verbatim>\<open>rhs\<close>.
\<close>

definition operator_assign_copy ::
  "'a env \<Rightarrow> 'a Vector \<Rightarrow> 'a Vector \<Rightarrow> ('a Vector, 'a) abort + 'a Vector" where
  "operator_assign_copy E v rhs =
     (if size_m rhs > Capacity (data_m v) then
        (case Vector_copy E rhs of
           Inl AssertionFailed \<Rightarrow> Inl AssertionFailed
         | Inl UndefinedBehaviour \<Rightarrow> Inl UndefinedBehaviour
         | Inl (Threw e u blk) \<Rightarrow> Inl (Threw e v blk)
         | Inr rhs_copy \<Rightarrow>
             (case Swap v rhs_copy of
                (v1, rhs_copy1) \<Rightarrow>
                  (case Vector_dtor rhs_copy1 of
                     None \<Rightarrow> Inl UndefinedBehaviour
                   | Some released \<Rightarrow> Inr v1)))
      else if size_m rhs < size_m v then
        (case std_copy E (slots rhs) (Vector_begin rhs) (size_m rhs) (slots v) (Vector_begin v) of
           Inl UB \<Rightarrow> Inl UndefinedBehaviour
         | Inl (Throw m) \<Rightarrow>
             Inl (Threw element_exception (v\<lparr>data_m := (data_m v)\<lparr>buffer_m := m\<rparr>\<rparr>) [])
         | Inr m \<Rightarrow>
             (case destroy_n m (Vector_begin v + size_m rhs) (size_m v - size_m rhs) of
                None \<Rightarrow> Inl UndefinedBehaviour
              | Some m' \<Rightarrow>
                  Inr \<lparr>data_m = (data_m v)\<lparr>buffer_m := m'\<rparr>, size_m = size_m rhs\<rparr>))
      else
        (case std_copy E (slots rhs) (Vector_begin rhs) (size_m v) (slots v) (Vector_begin v) of
           Inl UB \<Rightarrow> Inl UndefinedBehaviour
         | Inl (Throw m) \<Rightarrow>
             Inl (Threw element_exception (v\<lparr>data_m := (data_m v)\<lparr>buffer_m := m\<rparr>\<rparr>) [])
         | Inr m \<Rightarrow>
             (case uninitialized_copy_n E (slots rhs) (Vector_begin rhs + size_m v)
                     (size_m rhs - size_m v) m (Vector_end v) of
                Inl UB \<Rightarrow> Inl UndefinedBehaviour
              | Inl (Throw m') \<Rightarrow>
                  Inl (Threw element_exception (v\<lparr>data_m := (data_m v)\<lparr>buffer_m := m'\<rparr>\<rparr>) [])
              | Inr m' \<Rightarrow>
                  Inr \<lparr>data_m = (data_m v)\<lparr>buffer_m := m'\<rparr>, size_m = size_m rhs\<rparr>)))"

definition operator_assign_move :: "'a Vector \<Rightarrow> 'a Vector \<Rightarrow> 'a Vector \<times> 'a Vector" where
  "operator_assign_move v rhs =
     (case Swap v rhs of (v1, rhs1) \<Rightarrow> (v1, rhs1\<lparr>size_m := 0\<rparr>))"

text \<open>\<^verbatim>\<open>Reserve(new_capacity)\<close> and \<^verbatim>\<open>Resize(new_size)\<close>.\<close>

definition Reserve ::
  "'a env \<Rightarrow> 'a Vector \<Rightarrow> nat \<Rightarrow> ('a Vector, 'a) abort + 'a Vector" where
  "Reserve E v new_capacity =
     (if new_capacity \<le> Capacity (data_m v) then Inr v
      else
        (case RawMemory_ctor E new_capacity of
           None \<Rightarrow> Inl (Threw bad_alloc v [])
         | Some new_data \<Rightarrow>
             (case UninitializedMoveOrCopy E (slots v) (Vector_begin v) (size_m v)
                     (buffer_m new_data) 0 of
                Inl UB \<Rightarrow> Inl UndefinedBehaviour
              | Inl (Throw (old, b1)) \<Rightarrow>
                  Inl (Threw element_exception (v\<lparr>data_m := (data_m v)\<lparr>buffer_m := old\<rparr>\<rparr>) b1)
              | Inr (old, b1) \<Rightarrow>
                  (case destroy_n old (Vector_begin v) (size_m v) of
                     None \<Rightarrow> Inl UndefinedBehaviour
                   | Some old1 \<Rightarrow> Inr (v\<lparr>data_m := new_data\<lparr>buffer_m := b1\<rparr>\<rparr>)))))"

definition Resize ::
  "'a env \<Rightarrow> 'a Vector \<Rightarrow> nat \<Rightarrow> ('a Vector, 'a) abort + 'a Vector" where
  "Resize E v new_size =
     (if new_size = size_m v then Inr v
      else if new_size < size_m v then
        (case destroy_n (slots v) (Vector_begin v + new_size) (size_m v - new_size) of
           None \<Rightarrow> Inl UndefinedBehaviour
         | Some m \<Rightarrow> Inr \<lparr>data_m = (data_m v)\<lparr>buffer_m := m\<rparr>, size_m = new_size\<rparr>)
      else
        (case Reserve E v new_size of
           Inl e \<Rightarrow> Inl e
         | Inr v1 \<Rightarrow>
             (case uninitialized_value_construct_n E (slots v1) (Vector_end v1)
                     (new_size - size_m v1) of
                Inl UB \<Rightarrow> Inl UndefinedBehaviour
              | Inl (Throw m) \<Rightarrow>
                  Inl (Threw element_exception (v1\<lparr>data_m := (data_m v1)\<lparr>buffer_m := m\<rparr>\<rparr>) [])
              | Inr m \<Rightarrow> Inr \<lparr>data_m = (data_m v1)\<lparr>buffer_m := m\<rparr>, size_m = new_size\<rparr>)))"

text \<open>\<^verbatim>\<open>Size()\<close>, \<^verbatim>\<open>Capacity()\<close> and \<^verbatim>\<open>operator[]\<close>.\<close>

definition Size :: "'a Vector \<Rightarrow> nat" where
  "Size v = size_m v"

definition Vector_Capacity :: "'a Vector \<Rightarrow> nat" where
  "Vector_Capacity v = Capacity (data_m v)"

definition operator_index :: "'a Vector \<Rightarrow> nat \<Rightarrow> ('a Vector, 'a) abort + nat" where
  "operator_index v index =
     (if index < size_m v then RawMemory_index (data_m v) index else Inl AssertionFailed)"

text \<open>The values of the live elements, slots \<open>[0, size)\<close>, in order.\<close>

definition elems :: "'a Vector \<Rightarrow> 'a list" where
  "elems v = map the (take (size_m v) (slots v))"

text \<open>
  The invariant: \<open>size \<le> capacity\<close>, the block has exactly \<^verbatim>\<open>capacity_\<close> slots, and every
  slot below \<open>size\<close> is live.
\<close>

definition inv :: "'a Vector \<Rightarrow> bool" where
  "inv v = (size_m v \<le> Capacity (data_m v) \<and> Capacity (data_m v) = length (slots v) \<and>
            list_all (\<lambda>s. s \<noteq> None) (take (size_m v) (slots v)))"

text \<open>
  What is left of the invariant when \<^verbatim>\<open>capacity_\<close> counts slots that the block does not
  have: \<open>size \<le> capacity\<close>, and the slots below \<open>size\<close> are there and live.
\<close>

definition inv_live :: "'a Vector \<Rightarrow> bool" where
  "inv_live v = (size_m v \<le> Capacity (data_m v) \<and> size_m v \<le> length (slots v) \<and>
                 list_all (\<lambda>s. s \<noteq> None) (take (size_m v) (slots v)))"

text \<open>The same, for a block whose number of slots is in the range of \<^verbatim>\<open>size_t\<close>.\<close>

definition inv_size_t :: "'a Vector \<Rightarrow> bool" where
  "inv_size_t v = (inv_live v \<and> length (slots v) < 2 ^ 64)"

text \<open>
  \<open>allocates E n\<close>: a request for \<open>n\<close> slots gets a block of \<open>n\<close> slots. The byte count
  does not wrap and \<^verbatim>\<open>operator new\<close> does not throw.
\<close>

definition allocates :: "'a env \<Rightarrow> nat \<Rightarrow> bool" where
  "allocates E n =
     (n = 0 \<or> (0 < sizeof_T E \<and> n * sizeof_T E < 2 ^ 64 \<and> \<not> alloc_fails E (n * sizeof_T E)))"

section \<open>Client programs\<close>

text \<open>
  A client program is a list of calls of the public operations on the containers it has
  constructed; the store lists these containers, and a call names a container by its
  index. An exception is caught by the client: the store then holds the container as the
  exception left it, and a constructor that throws adds no container. A failed assertion
  or undefined behaviour ends the program: \<open>None\<close>. Self-assignment executes nothing.
\<close>

datatype 'a call =
    Construct_default
  | Construct_sized nat
  | Construct_copy nat
  | Construct_move nat
  | Call_EmplaceBack nat "'a option"
  | Call_PushBack nat "'a forwarded"
  | Call_Emplace nat nat "'a option"
  | Call_Insert nat nat "'a forwarded"
  | Call_PopBack nat
  | Call_Erase nat nat
  | Call_assign_copy nat nat
  | Call_assign_move nat nat
  | Call_Swap nat nat
  | Call_Reserve nat nat
  | Call_Resize nat nat
  | Call_index nat nat

definition drop_result :: "('s, 'a) abort + ('v \<times> 'r) \<Rightarrow> ('s, 'a) abort + 'v" where
  "drop_result res = (case res of Inl e \<Rightarrow> Inl e | Inr (v, r) \<Rightarrow> Inr v)"

definition settle ::
  "'a Vector list \<Rightarrow> nat \<Rightarrow> ('a Vector, 'a) abort + 'a Vector \<Rightarrow> 'a Vector list option" where
  "settle s i res =
     (case res of
        Inr v \<Rightarrow> Some (s[i := v])
      | Inl (Threw e v blk) \<Rightarrow> Some (s[i := v])
      | Inl AssertionFailed \<Rightarrow> None
      | Inl UndefinedBehaviour \<Rightarrow> None)"

definition constructed ::
  "'a Vector list \<Rightarrow> (unit, 'a) abort + 'a Vector \<Rightarrow> 'a Vector list option" where
  "constructed s res =
     (case res of
        Inr v \<Rightarrow> Some (s @ [v])
      | Inl (Threw e u blk) \<Rightarrow> Some s
      | Inl AssertionFailed \<Rightarrow> None
      | Inl UndefinedBehaviour \<Rightarrow> None)"

fun step :: "'a env \<Rightarrow> 'a Vector list \<Rightarrow> 'a call \<Rightarrow> 'a Vector list option" where
  "step E s Construct_default = Some (s @ [Vector_default])"
| "step E s (Construct_sized n) = constructed s (Vector_sized E n)"
| "step E s (Construct_copy j) =
     (if j < length s then constructed s (Vector_copy E (s ! j)) else None)"
| "step E s (Construct_move j) =
     (if j < length s then
        (case Vector_move (s ! j) of (v, other) \<Rightarrow> Some (s[j := other] @ [v]))
      else None)"
| "step E s (Call_EmplaceBack i arg) =
     (if i < length s then settle s i (drop_result (EmplaceBack E (s ! i) arg)) else None)"
| "step E s (Call_PushBack i val) =
     (if i < length s then settle s i (PushBack E (s ! i) val) else None)"
| "step E s (Call_Emplace i pos arg) =
     (if i < length s then settle s i (drop_result (Emplace E (s ! i) pos arg)) else None)"
| "step E s (Call_Insert i pos val) =
     (if i < length s then settle s i (drop_result (Insert E (s ! i) pos val)) else None)"
| "step E s (Call_PopBack i) =
     (if i < length s then settle s i (PopBack (s ! i)) else None)"
| "step E s (Call_Erase i pos) =
     (if i < length s then settle s i (drop_result (Erase E (s ! i) pos)) else None)"
| "step E s (Call_assign_copy i j) =
     (if i < length s \<and> j < length s then
        (if i = j then Some s else settle s i (operator_assign_copy E (s ! i) (s ! j)))
      else None)"
| "step E s (Call_assign_move i j) =
     (if i < length s \<and> j < length s then
        (if i = j then Some s
         else (case operator_assign_move (s ! i) (s ! j) of
                 (v, rhs) \<Rightarrow> Some (s[i := v, j := rhs])))
      else None)"
| "step E s (Call_Swap i j) =
     (if i < length s \<and> j < length s then
        (case Swap (s ! i) (s ! j) of (v, other) \<Rightarrow> Some (s[i := v, j := other]))
      else None)"
| "step E s (Call_Reserve i n) =
     (if i < length s then settle s i (Reserve E (s ! i) n) else None)"
| "step E s (Call_Resize i n) =
     (if i < length s then settle s i (Resize E (s ! i) n) else None)"
| "step E s (Call_index i index) =
     (if i < length s then
        (case operator_index (s ! i) index of Inl e \<Rightarrow> None | Inr r \<Rightarrow> Some s)
      else None)"

fun run :: "'a env \<Rightarrow> 'a Vector list \<Rightarrow> 'a call list \<Rightarrow> 'a Vector list option" where
  "run E s [] = Some s"
| "run E s (c # cs) = (case step E s c of None \<Rightarrow> None | Some s' \<Rightarrow> run E s' cs)"

text \<open>
  A sequence of appends of the values \<open>xs\<close> to one container, with the container before
  the first append, between the appends and after the last one.
\<close>

fun append_all ::
  "'a env \<Rightarrow> 'a Vector \<Rightarrow> 'a list \<Rightarrow> ('a Vector, 'a) abort + 'a Vector list" where
  "append_all E v [] = Inr [v]"
| "append_all E v (x # xs) =
     (case EmplaceBack E v (Some x) of
        Inl e \<Rightarrow> Inl e
      | Inr (v', r) \<Rightarrow>
          (case append_all E v' xs of
             Inl e \<Rightarrow> Inl e
           | Inr trace \<Rightarrow> Inr (v # trace)))"

text \<open>
  \<^verbatim>\<open>int\<close>: four bytes, and no operation throws. \<^verbatim>\<open>operator new\<close> does not throw.
\<close>

definition plain :: "int env" where
  "plain = \<lparr>is_nothrow_move_constructible = True, is_copy_constructible = True,
     copy_ctor_throws = (\<lambda>x. False), move_ctor_throws = (\<lambda>x. False),
     copy_assign_throws = (\<lambda>x. False), move_assign_throws = (\<lambda>x. False),
     moved_from = (\<lambda>x. x), value_init = Some 0, sizeof_T = 4, alloc_fails = (\<lambda>b. False)\<rparr>"

text \<open>
  An element type of four bytes that is copy constructible, whose move constructor is not
  \<^verbatim>\<open>noexcept\<close>, and whose copy constructor throws when it copies the value \<open>bad\<close>.
\<close>

definition copy_throws_on :: "int \<Rightarrow> int env" where
  "copy_throws_on bad = \<lparr>is_nothrow_move_constructible = False, is_copy_constructible = True,
     copy_ctor_throws = (\<lambda>x. x = bad), move_ctor_throws = (\<lambda>x. False),
     copy_assign_throws = (\<lambda>x. False), move_assign_throws = (\<lambda>x. False),
     moved_from = (\<lambda>x. x), value_init = Some 0, sizeof_T = 4, alloc_fails = (\<lambda>b. False)\<rparr>"

section \<open>Properties of the standard algorithms\<close>

lemma destroy_n_length: "destroy_n m first n = Some m' \<Longrightarrow> length m' = length m"
  by (induction n arbitrary: m first) (auto simp: destroy_at_def split: option.splits if_splits)

lemma destroy_n_outside:
  "destroy_n m first n = Some m' \<Longrightarrow> k < first \<or> first + n \<le> k \<Longrightarrow> m' ! k = m ! k"
  by (induction n arbitrary: m first) (auto simp: destroy_at_def split: option.splits if_splits)

lemma destroy_n_inside:
  "destroy_n m first n = Some m' \<Longrightarrow> first \<le> k \<Longrightarrow> k < first + n \<Longrightarrow> m' ! k = None"
proof (induction n arbitrary: m first)
  case 0
  then show ?case by simp
next
  case (Suc n)
  from Suc.prems(1) obtain m1 where m1: "destroy_at m first = Some m1"
    and rest: "destroy_n m1 (Suc first) n = Some m'"
    by (auto split: option.splits)
  show ?case
  proof (cases "k = first")
    case True
    with rest have "m' ! k = m1 ! k" by (simp add: destroy_n_outside)
    with m1 True show ?thesis by (auto simp: destroy_at_def split: if_splits)
  next
    case False
    with Suc.prems have "Suc first \<le> k" "k < Suc first + n" by simp_all
    with Suc.IH[OF rest] show ?thesis by simp
  qed
qed

lemma destroy_n_total:
  "\<forall>k. first \<le> k \<and> k < first + n \<longrightarrow> k < length m \<and> m ! k \<noteq> None \<Longrightarrow>
     \<exists>m'. destroy_n m first n = Some m'"
proof (induction n arbitrary: m first)
  case 0
  then show ?case by simp
next
  case (Suc n)
  then have "first < length m" "m ! first \<noteq> None" by auto
  then have m1: "destroy_at m first = Some (m[first := None])" by (simp add: destroy_at_def)
  have "\<forall>k. Suc first \<le> k \<and> k < Suc first + n \<longrightarrow>
          k < length (m[first := None]) \<and> m[first := None] ! k \<noteq> None"
    using Suc.prems by auto
  from Suc.IH[OF this] m1 show ?case by simp
qed

lemma uninitialized_copy_n_Inr:
  "uninitialized_copy_n E src first n dst d = Inr dst' \<Longrightarrow>
     length dst' = length dst \<and>
     (\<forall>k<n. dst' ! (d + k) = src ! (first + k) \<and> src ! (first + k) \<noteq> None \<and>
             d + k < length dst \<and> first + k < length src) \<and>
     (\<forall>j. j < d \<or> d + n \<le> j \<longrightarrow> dst' ! j = dst ! j)"
proof (induction n arbitrary: first dst d)
  case 0
  then show ?case by simp
next
  case (Suc n)
  from Suc.prems obtain x where x: "src ! first = Some x" "d < length dst" "first < length src"
    and rest: "uninitialized_copy_n E src (Suc first) n (dst[d := Some x]) (Suc d) = Inr dst'"
    by (auto simp: construct_at_def split: if_splits option.splits sum.splits fault.splits)
  note IH = Suc.IH[OF rest]
  have len: "length dst' = length dst" using IH by simp
  have out: "\<forall>j. j < d \<or> d + Suc n \<le> j \<longrightarrow> dst' ! j = dst ! j"
    using IH by auto
  have ins: "dst' ! (d + k) = src ! (first + k) \<and> src ! (first + k) \<noteq> None \<and>
             d + k < length dst \<and> first + k < length src"
    if "k < Suc n" for k
  proof (cases k)
    case 0
    have "dst' ! d = (dst[d := Some x]) ! d" using IH by simp
    with x 0 show ?thesis by simp
  next
    case (Suc k')
    with that have "k' < n" by simp
    with IH Suc show ?thesis by simp
  qed
  from len out ins show ?case by blast
qed

lemma uninitialized_copy_n_total:
  "d + n \<le> length dst \<Longrightarrow>
   \<forall>k<n. first + k < length src \<and> (\<exists>x. src ! (first + k) = Some x \<and> \<not> copy_ctor_throws E x) \<Longrightarrow>
   \<exists>dst'. uninitialized_copy_n E src first n dst d = Inr dst'"
proof (induction n arbitrary: first dst d)
  case 0
  then show ?case by simp
next
  case (Suc n)
  from Suc.prems(2) have "first + 0 < length src \<and> (\<exists>x. src ! (first + 0) = Some x \<and> \<not> copy_ctor_throws E x)"
    by blast
  then obtain x where x: "first < length src" "src ! first = Some x" "\<not> copy_ctor_throws E x"
    by auto
  have "\<forall>k<n. Suc first + k < length src \<and> (\<exists>x. src ! (Suc first + k) = Some x \<and> \<not> copy_ctor_throws E x)"
    using Suc.prems(2) by (metis Suc_less_eq add_Suc_shift)
  moreover have "Suc d + n \<le> length (dst[d := Some x])" using Suc.prems(1) by simp
  ultimately obtain dst' where "uninitialized_copy_n E src (Suc first) n (dst[d := Some x]) (Suc d) = Inr dst'"
    using Suc.IH by blast
  with x Suc.prems(1) show ?case by (simp add: construct_at_def)
qed

lemma uninitialized_copy_n_Throw:
  "uninitialized_copy_n E src first n dst d = Inl (Throw dst') \<Longrightarrow>
     length dst' = length dst \<and> (\<forall>j. j < d \<or> d + n \<le> j \<longrightarrow> dst' ! j = dst ! j)"
proof (induction n arbitrary: first dst d dst')
  case 0
  then show ?case by simp
next
  case (Suc n)
  show ?case
  proof (cases "\<exists>x. src ! first = Some x \<and> copy_ctor_throws E x")
    case True
    with Suc.prems show ?thesis
      by (auto split: if_splits option.splits)
  next
    case False
    with Suc.prems obtain x d2 where x: "src ! first = Some x" "d < length dst"
      and rest: "uninitialized_copy_n E src (Suc first) n (dst[d := Some x]) (Suc d) = Inl (Throw d2)"
      and d2: "dst' = d2[d := None]"
      by (auto simp: construct_at_def split: if_splits option.splits sum.splits fault.splits)
    from Suc.IH[OF rest] d2 show ?thesis by auto
  qed
qed

lemma uninitialized_move_n_Inr:
  "uninitialized_move_n E src first n dst d = Inr (src', dst') \<Longrightarrow>
     length dst' = length dst \<and> length src' = length src \<and>
     (\<forall>k<n. dst' ! (d + k) = src ! (first + k) \<and> src ! (first + k) \<noteq> None \<and>
             d + k < length dst \<and> first + k < length src \<and> src' ! (first + k) \<noteq> None) \<and>
     (\<forall>j. j < d \<or> d + n \<le> j \<longrightarrow> dst' ! j = dst ! j) \<and>
     (\<forall>j. j < first \<or> first + n \<le> j \<longrightarrow> src' ! j = src ! j)"
proof (induction n arbitrary: src first dst d)
  case 0
  then show ?case by simp
next
  case (Suc n)
  from Suc.prems obtain x where x: "src ! first = Some x" "d < length dst" "first < length src"
    and rest: "uninitialized_move_n E (src[first := Some (moved_from E x)]) (Suc first) n
                 (dst[d := Some x]) (Suc d) = Inr (src', dst')"
    by (auto simp: construct_at_def split: if_splits option.splits sum.splits fault.splits)
  note IH = Suc.IH[OF rest]
  have len: "length dst' = length dst" "length src' = length src" using IH by simp_all
  have out: "\<forall>j. j < d \<or> d + Suc n \<le> j \<longrightarrow> dst' ! j = dst ! j"
    using IH by auto
  have outs: "\<forall>j. j < first \<or> first + Suc n \<le> j \<longrightarrow> src' ! j = src ! j"
    using IH by auto
  have ins: "dst' ! (d + k) = src ! (first + k) \<and> src ! (first + k) \<noteq> None \<and>
             d + k < length dst \<and> first + k < length src \<and> src' ! (first + k) \<noteq> None"
    if "k < Suc n" for k
  proof (cases k)
    case 0
    have "dst' ! d = (dst[d := Some x]) ! d" using IH by simp
    moreover have "src' ! first = (src[first := Some (moved_from E x)]) ! first" using IH by simp
    ultimately show ?thesis using x 0 by simp
  next
    case (Suc k')
    with that have "k' < n" by simp
    with IH Suc show ?thesis by simp
  qed
  from len out outs ins show ?case by blast
qed

lemma uninitialized_move_n_Throw:
  "uninitialized_move_n E src first n dst d = Inl (Throw (src', dst')) \<Longrightarrow>
     length dst' = length dst \<and> length src' = length src \<and>
     (\<forall>j. j < d \<or> d + n \<le> j \<longrightarrow> dst' ! j = dst ! j) \<and>
     (\<forall>j < length src. src ! j \<noteq> None \<longrightarrow> src' ! j \<noteq> None)"
proof (induction n arbitrary: src first dst d dst')
  case 0
  then show ?case by simp
next
  case (Suc n)
  show ?case
  proof (cases "\<exists>x. src ! first = Some x \<and> move_ctor_throws E x")
    case True
    with Suc.prems show ?thesis
      by (auto split: if_splits option.splits)
  next
    case False
    with Suc.prems obtain x d2 where x: "src ! first = Some x" "d < length dst" "first < length src"
      and rest: "uninitialized_move_n E (src[first := Some (moved_from E x)]) (Suc first) n
                   (dst[d := Some x]) (Suc d) = Inl (Throw (src', d2))"
      and d2: "dst' = d2[d := None]"
      by (auto simp: construct_at_def split: if_splits option.splits sum.splits fault.splits)
    note IH = Suc.IH[OF rest]
    have "src' ! j \<noteq> None" if "j < length src" "src ! j \<noteq> None" for j
    proof -
      from that have "(src[first := Some (moved_from E x)]) ! j \<noteq> None"
        by (cases "j = first") simp_all
      with IH that show ?thesis by simp
    qed
    with IH d2 show ?thesis by auto
  qed
qed

lemma uninitialized_move_n_total:
  "d + n \<le> length dst \<Longrightarrow>
   \<forall>k<n. first + k < length src \<and> (\<exists>x. src ! (first + k) = Some x \<and> \<not> move_ctor_throws E x) \<Longrightarrow>
   \<exists>r. uninitialized_move_n E src first n dst d = Inr r"
proof (induction n arbitrary: src first dst d)
  case 0
  then show ?case by simp
next
  case (Suc n)
  from Suc.prems(2) have "first + 0 < length src \<and> (\<exists>x. src ! (first + 0) = Some x \<and> \<not> move_ctor_throws E x)"
    by blast
  then obtain x where x: "first < length src" "src ! first = Some x" "\<not> move_ctor_throws E x"
    by auto
  let ?src = "src[first := Some (moved_from E x)]"
  have "Suc first + k < length ?src \<and> (\<exists>x. ?src ! (Suc first + k) = Some x \<and> \<not> move_ctor_throws E x)"
    if "k < n" for k
  proof -
    from that have "Suc k < Suc n" by simp
    with Suc.prems(2) have "first + Suc k < length src \<and> (\<exists>x. src ! (first + Suc k) = Some x \<and> \<not> move_ctor_throws E x)"
      by blast
    then show ?thesis by simp
  qed
  moreover have "Suc d + n \<le> length (dst[d := Some x])" using Suc.prems(1) by simp
  ultimately obtain r where "uninitialized_move_n E ?src (Suc first) n (dst[d := Some x]) (Suc d) = Inr r"
    using Suc.IH by blast
  with x Suc.prems(1) show ?case by (simp add: construct_at_def)
qed

lemma UninitializedMoveOrCopy_Inr:
  "UninitializedMoveOrCopy E src first n dst d = Inr (src', dst') \<Longrightarrow>
     length dst' = length dst \<and> length src' = length src \<and>
     (\<forall>k<n. dst' ! (d + k) = src ! (first + k) \<and> src ! (first + k) \<noteq> None \<and>
             d + k < length dst \<and> first + k < length src \<and> src' ! (first + k) \<noteq> None) \<and>
     (\<forall>j. j < d \<or> d + n \<le> j \<longrightarrow> dst' ! j = dst ! j) \<and>
     (\<forall>j. j < first \<or> first + n \<le> j \<longrightarrow> src' ! j = src ! j)"
proof (cases "is_nothrow_move_constructible E \<or> \<not> is_copy_constructible E")
  case True
  assume "UninitializedMoveOrCopy E src first n dst d = Inr (src', dst')"
  with True have "uninitialized_move_n E src first n dst d = Inr (src', dst')"
    by (simp add: UninitializedMoveOrCopy_def)
  then show ?thesis by (rule uninitialized_move_n_Inr)
next
  case False
  assume "UninitializedMoveOrCopy E src first n dst d = Inr (src', dst')"
  with False have c: "uninitialized_copy_n E src first n dst d = Inr dst'" and s: "src' = src"
    by (auto simp: UninitializedMoveOrCopy_def split: sum.splits fault.splits)
  from uninitialized_copy_n_Inr[OF c] s show ?thesis by auto
qed

lemma UninitializedMoveOrCopy_Throw:
  "UninitializedMoveOrCopy E src first n dst d = Inl (Throw (src', dst')) \<Longrightarrow>
     length dst' = length dst \<and> length src' = length src \<and>
     (\<forall>j. j < d \<or> d + n \<le> j \<longrightarrow> dst' ! j = dst ! j) \<and>
     (\<forall>j < length src. src ! j \<noteq> None \<longrightarrow> src' ! j \<noteq> None)"
proof (cases "is_nothrow_move_constructible E \<or> \<not> is_copy_constructible E")
  case True
  assume "UninitializedMoveOrCopy E src first n dst d = Inl (Throw (src', dst'))"
  with True have "uninitialized_move_n E src first n dst d = Inl (Throw (src', dst'))"
    by (simp add: UninitializedMoveOrCopy_def)
  then show ?thesis by (rule uninitialized_move_n_Throw)
next
  case False
  assume "UninitializedMoveOrCopy E src first n dst d = Inl (Throw (src', dst'))"
  with False have c: "uninitialized_copy_n E src first n dst d = Inl (Throw dst')" and s: "src' = src"
    by (auto simp: UninitializedMoveOrCopy_def split: sum.splits fault.splits)
  from uninitialized_copy_n_Throw[OF c] s show ?thesis by simp
qed

lemma UninitializedMoveOrCopy_total:
  assumes "d + n \<le> length dst"
    and "\<forall>k<n. first + k < length src \<and>
           (\<exists>x. src ! (first + k) = Some x \<and> \<not> move_ctor_throws E x \<and> \<not> copy_ctor_throws E x)"
  shows "\<exists>r. UninitializedMoveOrCopy E src first n dst d = Inr r"
proof (cases "is_nothrow_move_constructible E \<or> \<not> is_copy_constructible E")
  case True
  from assms(2) have "\<forall>k<n. first + k < length src \<and>
           (\<exists>x. src ! (first + k) = Some x \<and> \<not> move_ctor_throws E x)" by blast
  from uninitialized_move_n_total[OF assms(1) this] True show ?thesis
    by (simp add: UninitializedMoveOrCopy_def)
next
  case False
  from assms(2) have "\<forall>k<n. first + k < length src \<and>
           (\<exists>x. src ! (first + k) = Some x \<and> \<not> copy_ctor_throws E x)" by blast
  from uninitialized_copy_n_total[OF assms(1) this] False show ?thesis
    by (auto simp: UninitializedMoveOrCopy_def)
qed

lemma std_copy_Inr:
  "std_copy E src first n dst d = Inr dst' \<Longrightarrow>
     length dst' = length dst \<and>
     (\<forall>k<n. dst' ! (d + k) = src ! (first + k) \<and> src ! (first + k) \<noteq> None \<and>
             d + k < length dst \<and> first + k < length src) \<and>
     (\<forall>j. j < d \<or> d + n \<le> j \<longrightarrow> dst' ! j = dst ! j)"
proof (induction n arbitrary: first dst d)
  case 0
  then show ?case by simp
next
  case (Suc n)
  from Suc.prems obtain x where x: "src ! first = Some x" "d < length dst" "first < length src"
    and rest: "std_copy E src (Suc first) n (dst[d := Some x]) (Suc d) = Inr dst'"
    by (auto split: if_splits option.splits)
  note IH = Suc.IH[OF rest]
  have len: "length dst' = length dst" using IH by simp
  have out: "\<forall>j. j < d \<or> d + Suc n \<le> j \<longrightarrow> dst' ! j = dst ! j"
    using IH by auto
  have ins: "dst' ! (d + k) = src ! (first + k) \<and> src ! (first + k) \<noteq> None \<and>
             d + k < length dst \<and> first + k < length src"
    if "k < Suc n" for k
  proof (cases k)
    case 0
    have "dst' ! d = (dst[d := Some x]) ! d" using IH by simp
    with x 0 show ?thesis by simp
  next
    case (Suc k')
    with that have "k' < n" by simp
    with IH Suc show ?thesis by simp
  qed
  from len out ins show ?case by blast
qed

lemma std_copy_Throw:
  "std_copy E src first n dst d = Inl (Throw dst') \<Longrightarrow>
     length dst' = length dst \<and> (\<forall>j < length dst. dst ! j \<noteq> None \<longrightarrow> dst' ! j \<noteq> None)"
proof (induction n arbitrary: first dst d)
  case 0
  then show ?case by simp
next
  case (Suc n)
  show ?case
  proof (cases "\<exists>x. src ! first = Some x \<and> copy_assign_throws E x")
    case True
    with Suc.prems show ?thesis
      by (auto split: if_splits option.splits)
  next
    case False
    with Suc.prems obtain x where x: "src ! first = Some x" "d < length dst"
      and rest: "std_copy E src (Suc first) n (dst[d := Some x]) (Suc d) = Inl (Throw dst')"
      by (auto split: if_splits option.splits)
    note IH = Suc.IH[OF rest]
    have "dst' ! j \<noteq> None" if "j < length dst" "dst ! j \<noteq> None" for j
    proof -
      from that have "(dst[d := Some x]) ! j \<noteq> None"
        by (cases "j = d") simp_all
      with IH that show ?thesis by simp
    qed
    with IH show ?thesis by auto
  qed
qed

lemma std_copy_total:
  "d + n \<le> length dst \<Longrightarrow> \<forall>k<n. dst ! (d + k) \<noteq> None \<Longrightarrow>
   \<forall>k<n. first + k < length src \<and> (\<exists>x. src ! (first + k) = Some x \<and> \<not> copy_assign_throws E x) \<Longrightarrow>
   \<exists>dst'. std_copy E src first n dst d = Inr dst'"
proof (induction n arbitrary: first dst d)
  case 0
  then show ?case by simp
next
  case (Suc n)
  from Suc.prems(3) have "first + 0 < length src \<and> (\<exists>x. src ! (first + 0) = Some x \<and> \<not> copy_assign_throws E x)"
    by blast
  then obtain x where x: "first < length src" "src ! first = Some x" "\<not> copy_assign_throws E x"
    by auto
  from Suc.prems(2) have "dst ! (d + 0) \<noteq> None" by blast
  then obtain y where y: "dst ! d = Some y" by auto
  have a: "\<forall>k<n. Suc first + k < length src \<and> (\<exists>x. src ! (Suc first + k) = Some x \<and> \<not> copy_assign_throws E x)"
    using Suc.prems(3) by (metis Suc_less_eq add_Suc_shift)
  have b: "Suc d + n \<le> length (dst[d := Some x])" using Suc.prems(1) by simp
  have c: "\<forall>k<n. (dst[d := Some x]) ! (Suc d + k) \<noteq> None"
  proof (intro allI impI)
    fix k assume "k < n"
    then have "Suc k < Suc n" by simp
    with Suc.prems(2) have "dst ! (d + Suc k) \<noteq> None" by blast
    then show "(dst[d := Some x]) ! (Suc d + k) \<noteq> None" by simp
  qed
  from Suc.IH[OF b c a] obtain dst' where "std_copy E src (Suc first) n (dst[d := Some x]) (Suc d) = Inr dst'"
    by blast
  with x y Suc.prems(1) show ?case by simp
qed

lemma uninitialized_value_construct_n_Inr:
  "uninitialized_value_construct_n E m first n = Inr m' \<Longrightarrow>
     length m' = length m \<and>
     (\<forall>k<n. m' ! (first + k) = value_init E \<and> value_init E \<noteq> None \<and> first + k < length m) \<and>
     (\<forall>j. j < first \<or> first + n \<le> j \<longrightarrow> m' ! j = m ! j)"
proof (induction n arbitrary: m first)
  case 0
  then show ?case by simp
next
  case (Suc n)
  from Suc.prems obtain x where x: "value_init E = Some x" "first < length m"
    and rest: "uninitialized_value_construct_n E (m[first := Some x]) (Suc first) n = Inr m'"
    by (auto simp: construct_at_def split: if_splits option.splits sum.splits fault.splits)
  note IH = Suc.IH[OF rest]
  have len: "length m' = length m" using IH by simp
  have out: "\<forall>j. j < first \<or> first + Suc n \<le> j \<longrightarrow> m' ! j = m ! j"
    using IH by auto
  have ins: "m' ! (first + k) = value_init E \<and> value_init E \<noteq> None \<and> first + k < length m"
    if "k < Suc n" for k
  proof (cases k)
    case 0
    have "m' ! first = (m[first := Some x]) ! first" using IH by simp
    with x 0 show ?thesis by simp
  next
    case (Suc k')
    with that have "k' < n" by simp
    with IH Suc show ?thesis by simp
  qed
  from len out ins show ?case by blast
qed

lemma uninitialized_value_construct_n_Throw:
  "uninitialized_value_construct_n E m first n = Inl (Throw m') \<Longrightarrow>
     length m' = length m \<and> (\<forall>j. j < first \<or> first + n \<le> j \<longrightarrow> m' ! j = m ! j)"
proof (induction n arbitrary: m first m')
  case 0
  then show ?case by simp
next
  case (Suc n)
  show ?case
  proof (cases "value_init E")
    case None
    with Suc.prems show ?thesis by simp
  next
    case (Some x)
    with Suc.prems obtain m2 where x: "first < length m"
      and rest: "uninitialized_value_construct_n E (m[first := Some x]) (Suc first) n = Inl (Throw m2)"
      and m2: "m' = m2[first := None]"
      by (auto simp: construct_at_def split: if_splits option.splits sum.splits fault.splits)
    from Suc.IH[OF rest] m2 show ?thesis by auto
  qed
qed

lemma uninitialized_value_construct_n_total:
  "first + n \<le> length m \<Longrightarrow> value_init E \<noteq> None \<Longrightarrow>
   \<exists>m'. uninitialized_value_construct_n E m first n = Inr m'"
proof (induction n arbitrary: m first)
  case 0
  then show ?case by simp
next
  case (Suc n)
  from Suc.prems(2) obtain x where x: "value_init E = Some x" by auto
  have "Suc first + n \<le> length (m[first := Some x])" using Suc.prems(1) by simp
  from Suc.IH[OF this Suc.prems(2)] obtain m' where
    "uninitialized_value_construct_n E (m[first := Some x]) (Suc first) n = Inr m'" by blast
  with x Suc.prems(1) show ?case by (simp add: construct_at_def)
qed

lemma std_move_Inr:
  "std_move E m (Suc d) n d = Inr m' \<Longrightarrow>
     length m' = length m \<and>
     (\<forall>k<n. m' ! (d + k) = m ! (Suc d + k) \<and> m ! (Suc d + k) \<noteq> None \<and> Suc d + k < length m) \<and>
     (\<forall>j. j < d \<or> d + n < j \<longrightarrow> m' ! j = m ! j) \<and>
     (\<forall>j < length m. m ! j \<noteq> None \<longrightarrow> m' ! j \<noteq> None)"
proof (induction n arbitrary: m d)
  case 0
  then show ?case by simp
next
  case (Suc n)
  from Suc.prems obtain x where x: "m ! Suc d = Some x" "Suc d < length m"
    and rest: "std_move E (m[d := Some x, Suc d := Some (moved_from E x)]) (Suc (Suc d)) n (Suc d) = Inr m'"
    by (auto split: if_splits option.splits)
  let ?m1 = "m[d := Some x, Suc d := Some (moved_from E x)]"
  note IH = Suc.IH[OF rest]
  have len: "length m' = length m" using IH by simp
  have out: "\<forall>j. j < d \<or> d + Suc n < j \<longrightarrow> m' ! j = m ! j"
    using IH by auto
  have live: "m' ! j \<noteq> None" if "j < length m" "m ! j \<noteq> None" for j
  proof -
    from that have "?m1 ! j \<noteq> None"
      by (cases "j = d"; cases "j = Suc d") (simp_all add: nth_list_update)
    with IH that show ?thesis by simp
  qed
  have ins: "m' ! (d + k) = m ! (Suc d + k) \<and> m ! (Suc d + k) \<noteq> None \<and> Suc d + k < length m"
    if "k < Suc n" for k
  proof (cases k)
    case 0
    have "m' ! d = ?m1 ! d" using IH by simp
    with x 0 show ?thesis by (simp add: nth_list_update)
  next
    case (Suc k')
    with that have "k' < n" by simp
    with IH have "m' ! (Suc d + k') = ?m1 ! (Suc (Suc d) + k') \<and> ?m1 ! (Suc (Suc d) + k') \<noteq> None
                   \<and> Suc (Suc d) + k' < length ?m1" by blast
    with Suc show ?thesis by (simp add: nth_list_update)
  qed
  from len out ins live show ?case by blast
qed

lemma std_move_Throw:
  "std_move E m first n d = Inl (Throw m') \<Longrightarrow>
     length m' = length m \<and> (\<forall>j < length m. m ! j \<noteq> None \<longrightarrow> m' ! j \<noteq> None)"
proof (induction n arbitrary: m first d)
  case 0
  then show ?case by simp
next
  case (Suc n)
  show ?case
  proof (cases "\<exists>x. m ! first = Some x \<and> move_assign_throws E x")
    case True
    with Suc.prems show ?thesis
      by (auto split: if_splits option.splits)
  next
    case False
    with Suc.prems obtain x where x: "m ! first = Some x"
      and rest: "std_move E (m[d := Some x, first := Some (moved_from E x)]) (Suc first) n (Suc d)
                   = Inl (Throw m')"
      by (auto split: if_splits option.splits)
    let ?m1 = "m[d := Some x, first := Some (moved_from E x)]"
    note IH = Suc.IH[OF rest]
    have "m' ! j \<noteq> None" if "j < length m" "m ! j \<noteq> None" for j
    proof -
      from that have "?m1 ! j \<noteq> None"
        by (cases "j = d"; cases "j = first") (simp_all add: nth_list_update)
      with IH that show ?thesis by simp
    qed
    with IH show ?thesis by auto
  qed
qed

lemma std_move_total:
  "\<forall>k\<le>n. d + k < length m \<and> m ! (d + k) \<noteq> None \<Longrightarrow>
   \<forall>k<n. \<forall>x. m ! (Suc d + k) = Some x \<longrightarrow> \<not> move_assign_throws E x \<Longrightarrow>
   \<exists>m'. std_move E m (Suc d) n d = Inr m'"
proof (induction n arbitrary: m d)
  case 0
  then show ?case by simp
next
  case (Suc n)
  from Suc.prems(1) have "d + 0 < length m \<and> m ! (d + 0) \<noteq> None" by blast
  then obtain y where y: "d < length m" "m ! d = Some y" by auto
  have "(1::nat) \<le> Suc n" by simp
  with Suc.prems(1) have "d + 1 < length m \<and> m ! (d + 1) \<noteq> None" by blast
  then obtain x where x: "Suc d < length m" "m ! Suc d = Some x" by auto
  have "(0::nat) < Suc n" by simp
  with Suc.prems(2) have "\<forall>z. m ! (Suc d + 0) = Some z \<longrightarrow> \<not> move_assign_throws E z" by blast
  with x have nt: "\<not> move_assign_throws E x" by simp
  let ?m1 = "m[d := Some x, Suc d := Some (moved_from E x)]"
  have a: "\<forall>k\<le>n. Suc d + k < length ?m1 \<and> ?m1 ! (Suc d + k) \<noteq> None"
  proof (intro allI impI)
    fix k assume "k \<le> n"
    then have "Suc k \<le> Suc n" by simp
    with Suc.prems(1) have "d + Suc k < length m \<and> m ! (d + Suc k) \<noteq> None" by blast
    then show "Suc d + k < length ?m1 \<and> ?m1 ! (Suc d + k) \<noteq> None"
      by (cases k) (simp_all add: nth_list_update)
  qed
  have b: "\<forall>k<n. \<forall>x. ?m1 ! (Suc (Suc d) + k) = Some x \<longrightarrow> \<not> move_assign_throws E x"
  proof (intro allI impI)
    fix k z assume "k < n" and z: "?m1 ! (Suc (Suc d) + k) = Some z"
    then have "Suc k < Suc n" by simp
    moreover from z have "m ! (Suc d + Suc k) = Some z" by (simp add: nth_list_update)
    ultimately show "\<not> move_assign_throws E z" using Suc.prems(2) by blast
  qed
  from Suc.IH[OF a b] obtain m' where "std_move E ?m1 (Suc (Suc d)) n (Suc d) = Inr m'" by blast
  with x y nt show ?case by simp
qed

lemma std_move_backward_Inr:
  "std_move_backward E m (p + n) n (Suc (p + n)) = Inr m' \<Longrightarrow>
     length m' = length m \<and>
     (\<forall>k<n. m' ! (Suc (p + k)) = m ! (p + k) \<and> m ! (p + k) \<noteq> None \<and> Suc (p + k) < length m) \<and>
     (\<forall>j. j < p \<or> p + n < j \<longrightarrow> m' ! j = m ! j) \<and>
     (\<forall>j < length m. m ! j \<noteq> None \<longrightarrow> m' ! j \<noteq> None)"
proof (induction n arbitrary: m)
  case 0
  then show ?case by simp
next
  case (Suc n)
  from Suc.prems obtain x where x: "m ! (p + n) = Some x" "Suc (p + n) < length m"
    and rest: "std_move_backward E (m[Suc (p + n) := Some x, p + n := Some (moved_from E x)])
                 (p + n) n (Suc (p + n)) = Inr m'"
    by (auto split: if_splits option.splits)
  let ?m1 = "m[Suc (p + n) := Some x, p + n := Some (moved_from E x)]"
  note IH = Suc.IH[OF rest]
  have len: "length m' = length m" using IH by simp
  have out: "m' ! j = m ! j" if "j < p \<or> p + Suc n < j" for j
  proof -
    from that IH have "m' ! j = ?m1 ! j" by auto
    with that show ?thesis by (auto simp: nth_list_update)
  qed
  have live: "m' ! j \<noteq> None" if "j < length m" "m ! j \<noteq> None" for j
  proof -
    from that have "?m1 ! j \<noteq> None"
      by (cases "j = p + n"; cases "j = Suc (p + n)") (simp_all add: nth_list_update)
    with IH that show ?thesis by simp
  qed
  have ins: "m' ! (Suc (p + k)) = m ! (p + k) \<and> m ! (p + k) \<noteq> None \<and> Suc (p + k) < length m"
    if "k < Suc n" for k
  proof (cases "k = n")
    case True
    have "m' ! (Suc (p + n)) = ?m1 ! (Suc (p + n))" using IH by simp
    with x True show ?thesis by (simp add: nth_list_update)
  next
    case False
    with that have "k < n" by simp
    with IH have "m' ! (Suc (p + k)) = ?m1 ! (p + k) \<and> ?m1 ! (p + k) \<noteq> None
                   \<and> Suc (p + k) < length ?m1" by blast
    with \<open>k < n\<close> show ?thesis by (simp add: nth_list_update)
  qed
  from len out ins live show ?case by blast
qed

lemma std_move_backward_Throw:
  "std_move_backward E m l n dl = Inl (Throw m') \<Longrightarrow>
     length m' = length m \<and> (\<forall>j < length m. m ! j \<noteq> None \<longrightarrow> m' ! j \<noteq> None)"
proof (induction n arbitrary: m l dl)
  case 0
  then show ?case by simp
next
  case (Suc n)
  show ?case
  proof (cases "\<exists>x. m ! (l - 1) = Some x \<and> move_assign_throws E x")
    case True
    with Suc.prems show ?thesis
      by (auto split: if_splits option.splits)
  next
    case False
    with Suc.prems obtain x where x: "m ! (l - 1) = Some x"
      and rest: "std_move_backward E (m[dl - 1 := Some x, l - 1 := Some (moved_from E x)])
                   (l - 1) n (dl - 1) = Inl (Throw m')"
      by (auto split: if_splits option.splits)
    let ?m1 = "m[dl - 1 := Some x, l - 1 := Some (moved_from E x)]"
    note IH = Suc.IH[OF rest]
    have "m' ! j \<noteq> None" if "j < length m" "m ! j \<noteq> None" for j
    proof -
      from that have "?m1 ! j \<noteq> None"
        by (cases "j = dl - 1"; cases "j = l - 1") (simp_all add: nth_list_update)
      with IH that show ?thesis by simp
    qed
    with IH show ?thesis by auto
  qed
qed

lemma std_move_backward_total:
  "\<forall>k\<le>n. p + k < length m \<and> m ! (p + k) \<noteq> None \<Longrightarrow>
   \<forall>k<n. \<forall>x. m ! (p + k) = Some x \<longrightarrow> \<not> move_assign_throws E x \<Longrightarrow>
   \<exists>m'. std_move_backward E m (p + n) n (Suc (p + n)) = Inr m'"
proof (induction n arbitrary: m)
  case 0
  then show ?case by simp
next
  case (Suc n)
  from Suc.prems(1) have "p + Suc n < length m \<and> m ! (p + Suc n) \<noteq> None" by blast
  then obtain y where y: "Suc (p + n) < length m" "m ! Suc (p + n) = Some y" by auto
  have "n \<le> Suc n" by simp
  with Suc.prems(1) have "p + n < length m \<and> m ! (p + n) \<noteq> None" by blast
  then obtain x where x: "p + n < length m" "m ! (p + n) = Some x" by auto
  have "n < Suc n" by simp
  with Suc.prems(2) have "\<forall>z. m ! (p + n) = Some z \<longrightarrow> \<not> move_assign_throws E z" by blast
  with x have nt: "\<not> move_assign_throws E x" by simp
  let ?m1 = "m[Suc (p + n) := Some x, p + n := Some (moved_from E x)]"
  have a: "\<forall>k\<le>n. p + k < length ?m1 \<and> ?m1 ! (p + k) \<noteq> None"
  proof (intro allI impI)
    fix k assume "k \<le> n"
    then have "k \<le> Suc n" by simp
    with Suc.prems(1) have "p + k < length m \<and> m ! (p + k) \<noteq> None" by blast
    with \<open>k \<le> n\<close> show "p + k < length ?m1 \<and> ?m1 ! (p + k) \<noteq> None"
      by (cases "k = n") (simp_all add: nth_list_update)
  qed
  have b: "\<forall>k<n. \<forall>x. ?m1 ! (p + k) = Some x \<longrightarrow> \<not> move_assign_throws E x"
  proof (intro allI impI)
    fix k z assume "k < n" and z: "?m1 ! (p + k) = Some z"
    then have "k < Suc n" by simp
    moreover from z \<open>k < n\<close> have "m ! (p + k) = Some z" by (simp add: nth_list_update)
    ultimately show "\<not> move_assign_throws E z" using Suc.prems(2) by blast
  qed
  from Suc.IH[OF a b] obtain m' where "std_move_backward E ?m1 (p + n) n (Suc (p + n)) = Inr m'" by blast
  with x y nt show ?case by simp
qed

section \<open>Properties of the allocation\<close>

lemma wrap_half:
  fixes s sz M :: nat
  assumes "(s + 1) * sz \<le> (2 * s * sz) mod M" "0 < M"
  shows "2 * s * sz < M"
proof (rule ccontr)
  assume "\<not> 2 * s * sz < M"
  then have ge: "M \<le> 2 * s * sz" by simp
  define W where "W = 2 * s * sz"
  define q where "q = (W div M) * M"
  define r where "r = W mod M"
  have W: "W = q + r" by (simp add: q_def r_def)
  have "1 \<le> W div M" using ge \<open>0 < M\<close> by (simp add: W_def div_greater_zero_iff Suc_leI)
  then have "1 * M \<le> (W div M) * M" by (rule mult_le_mono1)
  then have qM: "M \<le> q" by (simp add: q_def)
  have rM: "r < M" using \<open>0 < M\<close> by (simp add: r_def)
  have a: "s * sz + sz \<le> r" using assms(1) by (simp add: r_def W_def algebra_simps)
  have b: "2 * (s * sz) = q + r" using W by (simp add: W_def algebra_simps)
  from a b qM rM show False by arith
qed

lemma Allocate_length_le: "Allocate E n = Some b \<Longrightarrow> length b \<le> n"
proof -
  assume a: "Allocate E n = Some b"
  show ?thesis
  proof (cases "n = 0")
    case True
    with a show ?thesis by (simp add: Allocate_def)
  next
    case False
    with a have b: "length b = ((n * sizeof_T E) mod 2 ^ 64) div sizeof_T E"
      by (auto simp: Allocate_def size_t_mul_def split: if_splits)
    have "((n * sizeof_T E) mod 2 ^ 64) div sizeof_T E \<le> (n * sizeof_T E) div sizeof_T E"
      by (rule div_le_mono) simp
    also have "\<dots> \<le> n" by (cases "sizeof_T E = 0") simp_all
    finally show ?thesis using b by simp
  qed
qed

lemma Allocate_length_size_t: "Allocate E n = Some b \<Longrightarrow> length b < 2 ^ 64"
proof -
  assume a: "Allocate E n = Some b"
  show ?thesis
  proof (cases "n = 0")
    case True
    with a show ?thesis by (simp add: Allocate_def)
  next
    case False
    with a have b: "length b = ((n * sizeof_T E) mod 2 ^ 64) div sizeof_T E"
      by (auto simp: Allocate_def size_t_mul_def split: if_splits)
    have "((n * sizeof_T E) mod 2 ^ 64) div sizeof_T E \<le> (n * sizeof_T E) mod 2 ^ 64"
      by (rule div_le_dividend)
    also have "\<dots> < 2 ^ 64" by simp
    finally show ?thesis using b by simp
  qed
qed

lemma Allocate_raw: "Allocate E n = Some b \<Longrightarrow> b = replicate (length b) None"
  by (auto simp: Allocate_def split: if_splits)

lemma Allocate_allocates: "allocates E n \<Longrightarrow> Allocate E n = Some (replicate n None)"
  by (auto simp: allocates_def Allocate_def size_t_mul_def)

lemma Allocate_growth:
  assumes a: "Allocate E (if s = 0 then 1 else s * 2) = Some b" and f: "s < length b"
  shows "length b = (if s = 0 then 1 else s * 2)"
proof -
  let ?nc = "if s = 0 then 1 else s * 2"
  let ?sz = "sizeof_T E"
  from a have b: "length b = ((?nc * ?sz) mod 2 ^ 64) div ?sz"
    by (auto simp: Allocate_def size_t_mul_def split: if_splits)
  from b f have sz: "0 < ?sz" by (cases "?sz = 0") auto
  have "length b * ?sz \<le> (?nc * ?sz) mod 2 ^ 64"
    unfolding b by (rule div_times_less_eq_dividend)
  moreover from f have "(s + 1) * ?sz \<le> length b * ?sz" by (intro mult_le_mono1) simp
  ultimately have fit: "(s + 1) * ?sz \<le> (?nc * ?sz) mod 2 ^ 64" by simp
  have nowrap: "?nc * ?sz < 2 ^ 64"
  proof (cases "s = 0")
    case True
    with fit have "?sz \<le> ?sz mod 2 ^ 64" by simp
    then have "?sz mod 2 ^ 64 = ?sz" using mod_less_eq_dividend[of ?sz "2 ^ 64"] by simp
    then have "?sz < 2 ^ 64" using mod_less_divisor[of "2 ^ 64" ?sz] by simp
    with True show ?thesis by simp
  next
    case False
    with fit have "(s + 1) * ?sz \<le> (2 * s * ?sz) mod 2 ^ 64" by (simp add: mult.commute)
    from wrap_half[OF this] False show ?thesis by (simp add: mult.commute)
  qed
  then have "(?nc * ?sz) mod 2 ^ 64 = ?nc * ?sz" by simp
  with b sz show ?thesis by simp
qed

lemma RawMemory_ctor_allocates:
  "allocates E n \<Longrightarrow> RawMemory_ctor E n = Some \<lparr>buffer_m = replicate n None, capacity_m = n\<rparr>"
  by (simp add: RawMemory_ctor_def Allocate_allocates)

section \<open>Properties of the container operations\<close>

lemma inv_live_iff:
  "inv_live v \<longleftrightarrow> size_m v \<le> capacity_m (data_m v) \<and> size_m v \<le> length (slots v) \<and>
                 (\<forall>i<size_m v. slots v ! i \<noteq> None)"
  by (auto simp: inv_live_def Capacity_def list_all_length)

lemma inv_iff:
  "inv v \<longleftrightarrow> inv_live v \<and> capacity_m (data_m v) = length (slots v)"
  by (auto simp: inv_def inv_live_def Capacity_def)

lemma length_elems: "size_m v \<le> length (slots v) \<Longrightarrow> length (elems v) = size_m v"
  by (simp add: elems_def)

lemma elems_nth:
  "inv_live v \<Longrightarrow> i < size_m v \<Longrightarrow> slots v ! i = Some (elems v ! i)"
  by (auto simp: inv_live_iff elems_def)

lemma elems_eqI:
  assumes "size_m v = length xs" "size_m v \<le> length (slots v)"
    and "\<forall>i<length xs. slots v ! i = Some (xs ! i)"
  shows "elems v = xs"
proof (rule nth_equalityI)
  show "length (elems v) = length xs" using assms by (simp add: elems_def)
next
  fix i assume "i < length (elems v)"
  with assms show "elems v ! i = xs ! i" by (simp add: elems_def)
qed

lemma inv_liveI:
  "size_m v \<le> capacity_m (data_m v) \<Longrightarrow> size_m v \<le> length (slots v) \<Longrightarrow>
   \<forall>i<size_m v. slots v ! i \<noteq> None \<Longrightarrow> inv_live v"
  by (simp add: inv_live_iff)

lemma EmplaceBack_Inr_cases:
  assumes "EmplaceBack E v (Some x) = Inr (v', r)"
  shows "(size_m v < capacity_m (data_m v) \<and> size_m v < length (slots v) \<and>
            v' = \<lparr>data_m = (data_m v)\<lparr>buffer_m := (slots v)[size_m v := Some x]\<rparr>,
                  size_m = size_m v + 1\<rparr> \<and> r = size_m v)
       \<or> (\<not> size_m v < capacity_m (data_m v) \<and>
            (\<exists>b old b2.
               Allocate E (if size_m v = 0 then 1 else size_m v * 2) = Some b \<and>
               size_m v < length b \<and>
               UninitializedMoveOrCopy E (slots v) 0 (size_m v) (b[size_m v := Some x]) 0
                   = Inr (old, b2) \<and>
               v' = \<lparr>data_m = \<lparr>buffer_m = b2,
                                capacity_m = (if size_m v = 0 then 1 else size_m v * 2)\<rparr>,
                     size_m = size_m v + 1\<rparr> \<and> r = size_m v))"
proof (cases "size_m v < capacity_m (data_m v)")
  case True
  with assms show ?thesis
    by (auto simp: EmplaceBack_def Capacity_def construct_at_def RawMemory_index_def
             split: if_splits)
next
  case False
  with assms show ?thesis
    by (auto simp: EmplaceBack_def Capacity_def construct_at_def RawMemory_index_def
                   RawMemory_ctor_def Let_def
             split: if_splits option.splits sum.splits fault.splits prod.splits)
qed

lemma new_capacity_eq: "(if n = 0 then 1 else n * 2) = max 1 (2 * (n::nat))"
  by (simp add: max_def)

lemma EmplaceBack_effect_live:
  assumes i: "inv_live v" and e: "EmplaceBack E v (Some x) = Inr (v', r)"
  shows "size_m v' = size_m v + 1 \<and> elems v' = elems v @ [x] \<and> r = size_m v \<and> inv_live v' \<and>
         slots v' ! r = Some x \<and>
         Capacity (data_m v') =
           (if size_m v < Capacity (data_m v) then Capacity (data_m v)
            else max 1 (2 * Capacity (data_m v))) \<and>
         (if size_m v < Capacity (data_m v) then length (slots v') = length (slots v)
          else length (slots v') = Capacity (data_m v') \<and> length (slots v') < 2 ^ 64)"
proof -
  from i have sc: "size_m v \<le> capacity_m (data_m v)" and le: "size_m v \<le> length (slots v)"
    and live: "\<forall>i<size_m v. slots v ! i \<noteq> None" by (simp_all add: inv_live_iff)
  from length_elems[OF le] have lx: "length (elems v @ [x]) = size_m v + 1" by simp
  from EmplaceBack_Inr_cases[OF e] show ?thesis
  proof (elim disjE conjE exE)
    assume lc: "size_m v < capacity_m (data_m v)" and lt: "size_m v < length (slots v)"
      and v': "v' = \<lparr>data_m = (data_m v)\<lparr>buffer_m := (slots v)[size_m v := Some x]\<rparr>,
                     size_m = size_m v + 1\<rparr>"
      and r: "r = size_m v"
    have pt: "\<forall>i<length (elems v @ [x]). slots v' ! i = Some ((elems v @ [x]) ! i)"
    proof (intro allI impI)
      fix i assume "i < length (elems v @ [x])"
      with lx have "i < size_m v + 1" by simp
      then show "slots v' ! i = Some ((elems v @ [x]) ! i)"
        using v' lt elems_nth[OF i, of i] length_elems[OF le]
        by (cases "i = size_m v") (simp_all add: nth_append)
    qed
    have "elems v' = elems v @ [x]"
      by (rule elems_eqI) (use v' lt lx pt in simp_all)
    moreover have "inv_live v'"
      by (rule inv_liveI) (use v' lt lc pt lx in auto)
    ultimately show ?thesis using v' r lt lc by (simp add: Capacity_def)
  next
    fix b old b2
    let ?nc = "if size_m v = 0 then 1 else size_m v * 2"
    assume nlt: "\<not> size_m v < capacity_m (data_m v)"
      and al: "Allocate E ?nc = Some b" and fit: "size_m v < length b"
      and u: "UninitializedMoveOrCopy E (slots v) 0 (size_m v) (b[size_m v := Some x]) 0
                = Inr (old, b2)"
      and v': "v' = \<lparr>data_m = \<lparr>buffer_m = b2, capacity_m = ?nc\<rparr>, size_m = size_m v + 1\<rparr>"
      and r: "r = size_m v"
    from nlt sc have eq: "size_m v = capacity_m (data_m v)" by simp
    from Allocate_growth[OF al fit] have lb: "length b = ?nc" .
    from Allocate_length_size_t[OF al] have lb64: "length b < 2 ^ 64" .
    note U = UninitializedMoveOrCopy_Inr[OF u]
    from U lb have len: "length b2 = ?nc" by simp
    from U have pre: "\<forall>k<size_m v. b2 ! k = slots v ! k" by simp
    from U have "b2 ! size_m v = (b[size_m v := Some x]) ! size_m v"
      by simp
    with fit have new: "b2 ! size_m v = Some x" by simp
    have pt: "\<forall>i<length (elems v @ [x]). slots v' ! i = Some ((elems v @ [x]) ! i)"
    proof (intro allI impI)
      fix i assume "i < length (elems v @ [x])"
      with lx have "i < size_m v + 1" by simp
      then show "slots v' ! i = Some ((elems v @ [x]) ! i)"
        using v' pre new elems_nth[OF i, of i] length_elems[OF le]
        by (cases "i = size_m v") (simp_all add: nth_append)
    qed
    have "elems v' = elems v @ [x]"
      by (rule elems_eqI) (use v' len lx pt in \<open>simp_all split: if_splits\<close>)
    moreover have "inv_live v'"
      by (rule inv_liveI) (use v' len pt lx in \<open>auto split: if_splits\<close>)
    moreover have "?nc = max 1 (2 * capacity_m (data_m v))"
      using eq new_capacity_eq[of "size_m v"] by simp
    moreover have "length b2 < 2 ^ 64" using U lb64 by simp
    ultimately show ?thesis using v' r nlt new len by (simp add: Capacity_def)
  qed
qed

lemma EmplaceBack_effect:
  assumes i: "inv v" and e: "EmplaceBack E v (Some x) = Inr (v', r)"
  shows "size_m v' = size_m v + 1 \<and> elems v' = elems v @ [x] \<and> r = size_m v \<and> inv v' \<and>
         slots v' ! r = Some x \<and>
         Capacity (data_m v') =
           (if size_m v < Capacity (data_m v) then Capacity (data_m v)
            else max 1 (2 * Capacity (data_m v)))"
proof -
  from i have il: "inv_live v" and bk: "capacity_m (data_m v) = length (slots v)"
    by (simp_all add: inv_iff)
  note L = EmplaceBack_effect_live[OF il e]
  from L bk have "capacity_m (data_m v') = length (slots v')"
    by (auto simp: Capacity_def split: if_splits)
  with L show ?thesis by (auto simp: inv_iff)
qed

lemma EmplaceBack_total:
  assumes i: "inv v"
    and ok: "size_m v < Capacity (data_m v) \<or>
             (allocates E (max 1 (2 * Capacity (data_m v))) \<and>
              list_all (\<lambda>y. \<not> move_ctor_throws E y \<and> \<not> copy_ctor_throws E y) (elems v))"
  shows "\<exists>v' r. EmplaceBack E v (Some x) = Inr (v', r)"
proof (cases "size_m v < Capacity (data_m v)")
  case True
  with i show ?thesis
    by (simp add: EmplaceBack_def Capacity_def construct_at_def RawMemory_index_def inv_iff)
next
  case False
  from i have il: "inv_live v" and bk: "capacity_m (data_m v) = length (slots v)"
    by (simp_all add: inv_iff)
  from il have sc: "size_m v \<le> capacity_m (data_m v)" and le: "size_m v \<le> length (slots v)"
    and live: "\<forall>i<size_m v. slots v ! i \<noteq> None" by (simp_all add: inv_live_iff)
  from False sc have eq: "size_m v = capacity_m (data_m v)" by (simp add: Capacity_def)
  let ?nc = "if size_m v = 0 then 1 else size_m v * 2"
  have nc: "?nc = max 1 (2 * Capacity (data_m v))"
    using eq new_capacity_eq[of "size_m v"] by (simp add: Capacity_def)
  from False ok nc have al: "allocates E ?nc"
    and nt: "list_all (\<lambda>y. \<not> move_ctor_throws E y \<and> \<not> copy_ctor_throws E y) (elems v)"
    by auto
  note ctor = RawMemory_ctor_allocates[OF al]
  let ?nd1 = "(replicate ?nc None)[size_m v := Some x]"
  have "0 + size_m v \<le> length ?nd1" by simp
  moreover have "\<forall>k<size_m v. 0 + k < length (slots v) \<and>
      (\<exists>y. slots v ! (0 + k) = Some y \<and> \<not> move_ctor_throws E y \<and> \<not> copy_ctor_throws E y)"
  proof (intro allI impI)
    fix k assume k: "k < size_m v"
    with nt length_elems[OF le] have "\<not> move_ctor_throws E (elems v ! k) \<and> \<not> copy_ctor_throws E (elems v ! k)"
      by (simp add: list_all_length)
    with elems_nth[OF il k] k le
    show "0 + k < length (slots v) \<and>
      (\<exists>y. slots v ! (0 + k) = Some y \<and> \<not> move_ctor_throws E y \<and> \<not> copy_ctor_throws E y)"
      by simp
  qed
  ultimately obtain old nd2 where
    u: "UninitializedMoveOrCopy E (slots v) 0 (size_m v) ?nd1 0 = Inr (old, nd2)"
    using UninitializedMoveOrCopy_total[of 0 "size_m v" ?nd1 0 "slots v" E] by auto
  note U = UninitializedMoveOrCopy_Inr[OF u]
  have "\<forall>k. 0 \<le> k \<and> k < 0 + size_m v \<longrightarrow> k < length old \<and> old ! k \<noteq> None"
    using U le by simp
  from destroy_n_total[OF this] obtain old1 where d: "destroy_n old 0 (size_m v) = Some old1"
    by blast
  from False ctor u d show ?thesis
    by (simp add: EmplaceBack_def Capacity_def construct_at_def RawMemory_index_def
          Let_def split: if_splits)
qed

lemma EmplaceBack_None: "EmplaceBack E v None \<noteq> Inr z"
  by (simp add: EmplaceBack_def Let_def split: option.splits)


lemma Erase_Inr_cases:
  assumes "Erase E v p = Inr (v', r)"
  shows "p < size_m v \<and> r = p \<and>
         (\<exists>m. std_move E (slots v) (Suc p) (size_m v - Suc p) p = Inr m \<and>
              size_m v - 1 < length m \<and> m ! (size_m v - 1) \<noteq> None \<and>
              v' = \<lparr>data_m = (data_m v)\<lparr>buffer_m := m[size_m v - 1 := None]\<rparr>,
                    size_m = size_m v - 1\<rparr>)"
  using assms
  by (auto simp: Erase_def destroy_at_def split: if_splits sum.splits fault.splits option.splits)

lemma Erase_effect_live:
  assumes i: "inv_live v" and e: "Erase E v p = Inr (v', r)"
  shows "p < size_m v \<and> r = p \<and> size_m v' = size_m v - 1 \<and>
         elems v' = take p (elems v) @ drop (Suc p) (elems v) \<and>
         slots v' ! (size_m v - 1) = None \<and>
         length (slots v') = length (slots v) \<and>
         capacity_m (data_m v') = capacity_m (data_m v) \<and> inv_live v'"
proof -
  from i have sc: "size_m v \<le> capacity_m (data_m v)" and le: "size_m v \<le> length (slots v)"
    and live: "\<forall>i<size_m v. slots v ! i \<noteq> None" by (simp_all add: inv_live_iff)
  from Erase_Inr_cases[OF e] obtain m where p: "p < size_m v" and r: "r = p"
    and sm: "std_move E (slots v) (Suc p) (size_m v - Suc p) p = Inr m"
    and lastlive: "size_m v - 1 < length m"
    and v': "v' = \<lparr>data_m = (data_m v)\<lparr>buffer_m := m[size_m v - 1 := None]\<rparr>,
                   size_m = size_m v - 1\<rparr>"
    by blast
  note M = std_move_Inr[OF sm]
  let ?xs = "take p (elems v) @ drop (Suc p) (elems v)"
  from p length_elems[OF le] have lx: "length ?xs = size_m v - 1" by simp
  from M have len: "length m = length (slots v)" by simp
  have pt: "\<forall>i<length ?xs. slots v' ! i = Some (?xs ! i)"
  proof (intro allI impI)
    fix j assume "j < length ?xs"
    with lx have j: "j < size_m v - 1" by simp
    with v' lastlive have a: "slots v' ! j = m ! j" by simp
    show "slots v' ! j = Some (?xs ! j)"
    proof (cases "j < p")
      case True
      with M have "m ! j = slots v ! j" by simp
      with a True p elems_nth[OF i, of j] length_elems[OF le]
      show ?thesis by (simp add: nth_append)
    next
      case False
      then obtain k where k: "j = p + k" using le_Suc_ex[of p j] by auto
      with j have kn: "k < size_m v - Suc p" by simp
      with M have "m ! (p + k) = slots v ! (Suc p + k)" by blast
      with a k p j elems_nth[OF i, of "Suc j"] length_elems[OF le] False
      show ?thesis by (simp add: nth_append min_def)
    qed
  qed
  have el: "elems v' = ?xs"
    by (rule elems_eqI) (use v' lx pt le len in simp_all)
  have "inv_live v'"
    by (rule inv_liveI) (use v' lx pt le len sc in auto)
  with el v' p r lastlive len show ?thesis by simp
qed

lemma Erase_effect:
  assumes i: "inv v" and e: "Erase E v p = Inr (v', r)"
  shows "p < size_m v \<and> r = p \<and> size_m v' = size_m v - 1 \<and>
         elems v' = take p (elems v) @ drop (Suc p) (elems v) \<and>
         slots v' ! (size_m v - 1) = None \<and>
         Capacity (data_m v') = Capacity (data_m v) \<and> inv v'"
proof -
  from i have il: "inv_live v" and bk: "capacity_m (data_m v) = length (slots v)"
    by (simp_all add: inv_iff)
  from Erase_effect_live[OF il e] bk show ?thesis by (auto simp: inv_iff Capacity_def)
qed

lemma Erase_total:
  assumes i: "inv_live v" and p: "p < size_m v"
    and nt: "list_all (\<lambda>y. \<not> move_assign_throws E y) (drop (Suc p) (elems v))"
  shows "\<exists>v'. Erase E v p = Inr (v', p)"
proof -
  from i have le: "size_m v \<le> length (slots v)"
    and live: "\<forall>i<size_m v. slots v ! i \<noteq> None" by (simp_all add: inv_live_iff)
  let ?n = "size_m v - Suc p"
  have a: "\<forall>k\<le>?n. p + k < length (slots v) \<and> slots v ! (p + k) \<noteq> None"
    using p le live by auto
  have b: "\<forall>k<?n. \<forall>x. slots v ! (Suc p + k) = Some x \<longrightarrow> \<not> move_assign_throws E x"
  proof (intro allI impI)
    fix k x assume k: "k < ?n" and x: "slots v ! (Suc p + k) = Some x"
    from k have "Suc p + k < size_m v" by simp
    from elems_nth[OF i this] x have "elems v ! (Suc p + k) = x" by simp
    moreover from nt k length_elems[OF le]
    have "\<not> move_assign_throws E (drop (Suc p) (elems v) ! k)"
      by (simp add: list_all_length)
    ultimately show "\<not> move_assign_throws E x"
      using k length_elems[OF le] by simp
  qed
  from std_move_total[OF a b] obtain m where
    sm: "std_move E (slots v) (Suc p) ?n p = Inr m" by blast
  note M = std_move_Inr[OF sm]
  from p le live have "size_m v - 1 < length (slots v)" "slots v ! (size_m v - 1) \<noteq> None"
    by simp_all
  with M have "size_m v - 1 < length m \<and> m ! (size_m v - 1) \<noteq> None" by simp
  with sm p show ?thesis by (simp add: Erase_def destroy_at_def)
qed

lemma Reserve_Inr_cases:
  assumes "Reserve E v n = Inr v'"
  shows "(n \<le> capacity_m (data_m v) \<and> v' = v)
       \<or> (\<not> n \<le> capacity_m (data_m v) \<and>
            (\<exists>b old b1.
               Allocate E n = Some b \<and>
               UninitializedMoveOrCopy E (slots v) 0 (size_m v) b 0 = Inr (old, b1) \<and>
               v' = v\<lparr>data_m := \<lparr>buffer_m = b1, capacity_m = n\<rparr>\<rparr>))"
  using assms
  by (auto simp: Reserve_def Capacity_def RawMemory_ctor_def
           split: if_splits sum.splits fault.splits option.splits prod.splits)

lemma Reserve_effect_live:
  assumes i: "inv_live v" and e: "Reserve E v n = Inr v'"
  shows "size_m v' = size_m v \<and> elems v' = elems v \<and> inv_live v' \<and>
         Capacity (data_m v') = (if n \<le> Capacity (data_m v) then Capacity (data_m v) else n) \<and>
         (if n \<le> Capacity (data_m v) then v' = v
          else length (slots v') \<le> n \<and> length (slots v') < 2 ^ 64 \<and>
               (allocates E n \<longrightarrow> length (slots v') = n))"
proof -
  from i have sc: "size_m v \<le> capacity_m (data_m v)" and le: "size_m v \<le> length (slots v)"
    and live: "\<forall>i<size_m v. slots v ! i \<noteq> None" by (simp_all add: inv_live_iff)
  from Reserve_Inr_cases[OF e] show ?thesis
  proof (elim disjE conjE exE)
    assume "n \<le> capacity_m (data_m v)" "v' = v"
    with i show ?thesis by (simp add: Capacity_def)
  next
    fix b old b1
    assume gt: "\<not> n \<le> capacity_m (data_m v)"
      and al: "Allocate E n = Some b"
      and u: "UninitializedMoveOrCopy E (slots v) 0 (size_m v) b 0 = Inr (old, b1)"
      and v': "v' = v\<lparr>data_m := \<lparr>buffer_m = b1, capacity_m = n\<rparr>\<rparr>"
    note U = UninitializedMoveOrCopy_Inr[OF u]
    from U have len: "length b1 = length b" by simp
    have room: "size_m v \<le> length b"
    proof (cases "size_m v")
      case 0
      then show ?thesis by simp
    next
      case (Suc k)
      then have "k < size_m v" by simp
      with U have "0 + k < length b" by blast
      with Suc show ?thesis by simp
    qed
    from U have pre: "\<forall>k<size_m v. b1 ! k = slots v ! k" by simp
    have pt: "\<forall>j<length (elems v). slots v' ! j = Some (elems v ! j)"
      using v' pre elems_nth[OF i] length_elems[OF le] by simp
    have el: "elems v' = elems v"
      by (rule elems_eqI) (use v' len room pt length_elems[OF le] in simp_all)
    have il: "inv_live v'"
      by (rule inv_liveI) (use v' len room gt sc pt length_elems[OF le] in auto)
    have "allocates E n \<longrightarrow> length b = n" using al Allocate_allocates[of E n] by auto
    with el il v' len gt Allocate_length_le[OF al] Allocate_length_size_t[OF al]
    show ?thesis by (simp add: Capacity_def)
  qed
qed

lemma migrate_all_total:
  assumes i: "inv_live v" and room: "size_m v \<le> length dst"
    and nt: "list_all (\<lambda>y. \<not> move_ctor_throws E y \<and> \<not> copy_ctor_throws E y) (elems v)"
  shows "\<exists>old new. UninitializedMoveOrCopy E (slots v) 0 (size_m v) dst 0 = Inr (old, new) \<and>
           (\<exists>old1. destroy_n old 0 (size_m v) = Some old1)"
proof -
  from i have le: "size_m v \<le> length (slots v)"
    and live: "\<forall>i<size_m v. slots v ! i \<noteq> None" by (simp_all add: inv_live_iff)
  have "0 + size_m v \<le> length dst" using room by simp
  moreover have "\<forall>k<size_m v. 0 + k < length (slots v) \<and>
      (\<exists>y. slots v ! (0 + k) = Some y \<and> \<not> move_ctor_throws E y \<and> \<not> copy_ctor_throws E y)"
  proof (intro allI impI)
    fix k assume k: "k < size_m v"
    with nt length_elems[OF le]
    have "\<not> move_ctor_throws E (elems v ! k) \<and> \<not> copy_ctor_throws E (elems v ! k)"
      by (simp add: list_all_length)
    with elems_nth[OF i k] k le
    show "0 + k < length (slots v) \<and>
      (\<exists>y. slots v ! (0 + k) = Some y \<and> \<not> move_ctor_throws E y \<and> \<not> copy_ctor_throws E y)"
      by simp
  qed
  ultimately obtain old new where
    u: "UninitializedMoveOrCopy E (slots v) 0 (size_m v) dst 0 = Inr (old, new)"
    using UninitializedMoveOrCopy_total[of 0 "size_m v" dst 0 "slots v" E] by auto
  note U = UninitializedMoveOrCopy_Inr[OF u]
  have "\<forall>k. 0 \<le> k \<and> k < 0 + size_m v \<longrightarrow> k < length old \<and> old ! k \<noteq> None"
    using U le by simp
  from destroy_n_total[OF this] u show ?thesis by blast
qed

lemma Reserve_total:
  assumes i: "inv_live v"
    and ok: "n \<le> Capacity (data_m v) \<or>
             (allocates E n \<and>
              list_all (\<lambda>y. \<not> move_ctor_throws E y \<and> \<not> copy_ctor_throws E y) (elems v))"
  shows "\<exists>v'. Reserve E v n = Inr v'"
proof (cases "n \<le> Capacity (data_m v)")
  case True
  then show ?thesis by (simp add: Reserve_def)
next
  case False
  from i have sc: "size_m v \<le> capacity_m (data_m v)" by (simp add: inv_live_iff)
  from False ok have al: "allocates E n"
    and nt: "list_all (\<lambda>y. \<not> move_ctor_throws E y \<and> \<not> copy_ctor_throws E y) (elems v)"
    by auto
  from False sc have "size_m v \<le> length (replicate n (None :: 'a option))"
    by (simp add: Capacity_def)
  from migrate_all_total[OF i this nt] obtain old new old1 where
    "UninitializedMoveOrCopy E (slots v) 0 (size_m v) (replicate n None) 0 = Inr (old, new)"
    "destroy_n old 0 (size_m v) = Some old1" by blast
  with False RawMemory_ctor_allocates[OF al] show ?thesis by (simp add: Reserve_def)
qed

lemma Reserve_effect:
  assumes i: "inv v" and e: "Reserve E v n = Inr v'"
    and al: "n \<le> Capacity (data_m v) \<or> allocates E n"
  shows "size_m v' = size_m v \<and> elems v' = elems v \<and> inv v' \<and>
         Capacity (data_m v') = (if n \<le> Capacity (data_m v) then Capacity (data_m v) else n)"
proof -
  from i have il: "inv_live v" by (simp add: inv_iff)
  note L = Reserve_effect_live[OF il e]
  show ?thesis
  proof (cases "n \<le> Capacity (data_m v)")
    case True
    with L i show ?thesis by simp
  next
    case False
    with al have "allocates E n" by simp
    with L False have "length (slots v') = n" by simp
    with L False show ?thesis by (simp add: inv_iff Capacity_def)
  qed
qed

lemma Emplace_Inr_cases:
  assumes e: "Emplace E v pos (Some x) = Inr (v', r)"
  shows "pos \<le> size_m v \<and> r = pos \<and>
    ((pos = size_m v \<and> (\<exists>r'. EmplaceBack E v (Some x) = Inr (v', r')))
   \<or> (pos < size_m v \<and> size_m v < capacity_m (data_m v) \<and> size_m v < length (slots v) \<and>
        (\<exists>back m2.
           slots v ! (size_m v - 1) = Some back \<and>
           std_move_backward E
             ((slots v)[size_m v - 1 := Some (moved_from E back), size_m v := Some back])
             (size_m v - 1) (size_m v - 1 - pos) (size_m v) = Inr m2 \<and>
           pos < length m2 \<and>
           v' = \<lparr>data_m = (data_m v)\<lparr>buffer_m := m2[pos := Some x]\<rparr>,
                 size_m = size_m v + 1\<rparr>))
   \<or> (pos < size_m v \<and> \<not> size_m v < capacity_m (data_m v) \<and>
        (\<exists>b old1 nd2 old2 nd3.
           Allocate E (if size_m v = 0 then 1 else size_m v * 2) = Some b \<and>
           pos < length b \<and>
           UninitializedMoveOrCopy E (slots v) 0 pos (b[pos := Some x]) 0 = Inr (old1, nd2) \<and>
           UninitializedMoveOrCopy E old1 pos (size_m v - pos - 1 + 1) nd2 (pos + 1)
               = Inr (old2, nd3) \<and>
           v' = \<lparr>data_m = \<lparr>buffer_m = nd3,
                            capacity_m = (if size_m v = 0 then 1 else size_m v * 2)\<rparr>,
                 size_m = size_m v + 1\<rparr>)))"
proof -
  from e have le: "pos \<le> size_m v" by (auto simp: Emplace_def split: if_splits)
  show ?thesis
  proof (cases "pos = size_m v")
    case True
    with e show ?thesis
      by (auto simp: Emplace_def Let_def split: sum.splits)
  next
    case False
    with le have lt: "pos < size_m v" by simp
    show ?thesis
    proof (cases "size_m v < capacity_m (data_m v)")
      case True
      with e lt show ?thesis
        by (auto simp: Emplace_def Let_def Capacity_def construct_at_def RawMemory_index_def
                 split: if_splits option.splits sum.splits fault.splits)
    next
      case False
      with e lt show ?thesis
        by (auto simp: Emplace_def Let_def Capacity_def construct_at_def RawMemory_ctor_def
                 split: if_splits option.splits sum.splits fault.splits prod.splits)
    qed
  qed
qed

lemma insert_nth:
  assumes "p \<le> length es"
  shows "length (take p es @ [x] @ drop p es) = length es + 1"
    and "j < p \<Longrightarrow> (take p es @ [x] @ drop p es) ! j = es ! j"
    and "(take p es @ [x] @ drop p es) ! p = x"
    and "p \<le> k \<Longrightarrow> k < length es \<Longrightarrow> (take p es @ [x] @ drop p es) ! Suc k = es ! k"
proof -
  show "length (take p es @ [x] @ drop p es) = length es + 1" using assms by simp
  show "j < p \<Longrightarrow> (take p es @ [x] @ drop p es) ! j = es ! j"
    using assms by (simp add: nth_append)
  show "(take p es @ [x] @ drop p es) ! p = x"
    using assms by (simp add: nth_append)
  show "p \<le> k \<Longrightarrow> k < length es \<Longrightarrow> (take p es @ [x] @ drop p es) ! Suc k = es ! k"
    using assms by (simp add: nth_append min_def Suc_diff_le)
qed

lemma Emplace_inplace_effect:
  assumes i: "inv_live v" and lt: "pos < size_m v" and cap: "size_m v < capacity_m (data_m v)"
    and room: "size_m v < length (slots v)"
    and bk: "slots v ! (size_m v - 1) = Some back"
    and mb: "std_move_backward E
               ((slots v)[size_m v - 1 := Some (moved_from E back), size_m v := Some back])
               (size_m v - 1) (size_m v - 1 - pos) (size_m v) = Inr m2"
    and v': "v' = \<lparr>data_m = (data_m v)\<lparr>buffer_m := m2[pos := Some x]\<rparr>,
                   size_m = size_m v + 1\<rparr>"
  shows "elems v' = take pos (elems v) @ [x] @ drop pos (elems v) \<and> inv_live v' \<and>
         length (slots v') = length (slots v) \<and>
         capacity_m (data_m v') = capacity_m (data_m v)"
proof -
  from i have sc: "size_m v \<le> capacity_m (data_m v)" and le: "size_m v \<le> length (slots v)"
    and live: "\<forall>i<size_m v. slots v ! i \<noteq> None" by (simp_all add: inv_live_iff)
  let ?s = "size_m v"
  let ?n = "?s - 1 - pos"
  let ?m1 = "(slots v)[?s - 1 := Some (moved_from E back), ?s := Some back]"
  let ?es = "elems v"
  let ?xs = "take pos ?es @ [x] @ drop pos ?es"
  from lt have s1: "?s - 1 = pos + ?n" and s2: "?s = Suc (pos + ?n)" by simp_all
  from mb s1 s2 have "std_move_backward E ?m1 (pos + ?n) ?n (Suc (pos + ?n)) = Inr m2"
    by simp
  note M = std_move_backward_Inr[OF this]
  from M have len: "length m2 = length (slots v)" by simp
  have les: "length ?es = ?s" by (rule length_elems[OF le])
  from lt les have ples: "pos \<le> length ?es" by simp
  note X = insert_nth[OF ples, where x = x]
  have pt: "\<forall>j<length ?xs. slots v' ! j = Some (?xs ! j)"
  proof (intro allI impI)
    fix j assume "j < length ?xs"
    with X(1) les have j: "j < ?s + 1" by simp
    consider "j < pos" | "j = pos" | "pos < j" "j < ?s" | "j = ?s" using j by linarith
    then show "slots v' ! j = Some (?xs ! j)"
    proof cases
      case 1
      with M have "m2 ! j = ?m1 ! j" by blast
      with 1 lt have "m2 ! j = slots v ! j" by simp
      with 1 v' lt elems_nth[OF i, of j] X(2)[where j = j] show ?thesis by simp
    next
      case 2
      with v' lt len room X(3) show ?thesis by simp
    next
      case 3
      then obtain k where k: "j = Suc (pos + k)" "k < ?n"
        using less_imp_Suc_add[of pos j] by auto
      with M have "m2 ! (Suc (pos + k)) = ?m1 ! (pos + k)" by blast
      with k have "m2 ! j = slots v ! (pos + k)" by simp
      moreover have "(?xs ! Suc (pos + k)) = ?es ! (pos + k)"
        using X(4)[where k = "pos + k"] k les by simp
      ultimately show ?thesis
        using v' 3 k elems_nth[OF i, of "pos + k"] by simp
    next
      case 4
      with s2 M have "m2 ! j = ?m1 ! j" by (metis lessI)
      with 4 room have "m2 ! j = Some back" by simp
      moreover have "?xs ! Suc (?s - 1) = ?es ! (?s - 1)"
        using X(4)[where k = "?s - 1"] lt les by simp
      ultimately show ?thesis
        using v' 4 lt bk elems_nth[OF i, of "?s - 1"] by simp
    qed
  qed
  have el: "elems v' = ?xs"
    by (rule elems_eqI) (use v' X(1) les pt len room in simp_all)
  have "inv_live v'"
    by (rule inv_liveI) (use v' X(1) les pt len room cap in auto)
  with el v' len show ?thesis by simp
qed

lemma Emplace_growth_effect:
  assumes i: "inv_live v" and lt: "pos < size_m v" and full: "\<not> size_m v < capacity_m (data_m v)"
    and al: "Allocate E (if size_m v = 0 then 1 else size_m v * 2) = Some b"
    and pb: "pos < length b"
    and u1: "UninitializedMoveOrCopy E (slots v) 0 pos (b[pos := Some x]) 0 = Inr (old1, nd2)"
    and u2: "UninitializedMoveOrCopy E old1 pos (size_m v - pos - 1 + 1) nd2 (pos + 1)
                 = Inr (old2, nd3)"
    and v': "v' = \<lparr>data_m = \<lparr>buffer_m = nd3,
                              capacity_m = (if size_m v = 0 then 1 else size_m v * 2)\<rparr>,
                   size_m = size_m v + 1\<rparr>"
  shows "elems v' = take pos (elems v) @ [x] @ drop pos (elems v) \<and> inv_live v' \<and>
         length (slots v') = max 1 (2 * capacity_m (data_m v)) \<and>
         capacity_m (data_m v') = max 1 (2 * capacity_m (data_m v)) \<and>
         length (slots v') < 2 ^ 64"
proof -
  from i have sc: "size_m v \<le> capacity_m (data_m v)" and le: "size_m v \<le> length (slots v)"
    and live: "\<forall>i<size_m v. slots v ! i \<noteq> None" by (simp_all add: inv_live_iff)
  let ?s = "size_m v"
  let ?nc = "if ?s = 0 then 1 else ?s * 2"
  let ?nd1 = "b[pos := Some x]"
  let ?es = "elems v"
  let ?xs = "take pos ?es @ [x] @ drop pos ?es"
  from full sc have eq: "?s = capacity_m (data_m v)" by simp
  note U1 = UninitializedMoveOrCopy_Inr[OF u1]
  note U2 = UninitializedMoveOrCopy_Inr[OF u2]
  from lt have "?s - pos - 1 < ?s - pos - 1 + 1" by simp
  with U2 have "pos + 1 + (?s - pos - 1) < length nd2" by blast
  with lt U1 have fit: "?s < length b" by simp
  from Allocate_growth[OF al fit] have lb: "length b = ?nc" .
  from U1 U2 lb have len: "length nd3 = ?nc" by simp
  from Allocate_length_size_t[OF al] U1 U2 have l64: "length nd3 < 2 ^ 64" by simp
  from lt have nc: "?s + 1 \<le> ?nc" by simp
  have les: "length ?es = ?s" by (rule length_elems[OF le])
  from lt les have ples: "pos \<le> length ?es" by simp
  note X = insert_nth[OF ples, where x = x]
  have pt: "\<forall>j<length ?xs. slots v' ! j = Some (?xs ! j)"
  proof (intro allI impI)
    fix j assume "j < length ?xs"
    with X(1) les have j: "j < ?s + 1" by simp
    consider "j < pos" | "j = pos" | "pos < j" using j by linarith
    then show "slots v' ! j = Some (?xs ! j)"
    proof cases
      case 1
      with U2 have "nd3 ! j = nd2 ! j" by simp
      moreover from 1 U1 have "nd2 ! (0 + j) = slots v ! (0 + j)" by blast
      ultimately show ?thesis
        using 1 v' lt elems_nth[OF i, of j] X(2)[where j = j] by simp
    next
      case 2
      with U2 have "nd3 ! j = nd2 ! j" by simp
      moreover from 2 U1 have "nd2 ! j = ?nd1 ! j" by simp
      ultimately show ?thesis using 2 v' lt pb X(3) by simp
    next
      case 3
      then obtain k where k: "j = Suc (pos + k)" using less_imp_Suc_add[of pos j] by auto
      with j have kn: "k < ?s - pos - 1 + 1" by simp
      with U2 have "nd3 ! (pos + 1 + k) = old1 ! (pos + k)" by blast
      moreover from U1 have "old1 ! (pos + k) = slots v ! (pos + k)" by simp
      moreover have "(?xs ! Suc (pos + k)) = ?es ! (pos + k)"
        using X(4)[where k = "pos + k"] kn lt les by simp
      ultimately show ?thesis
        using v' k kn lt elems_nth[OF i, of "pos + k"] by simp
    qed
  qed
  have el: "elems v' = ?xs"
    by (rule elems_eqI) (use v' X(1) les pt len nc in simp_all)
  have "inv_live v'"
    by (rule inv_liveI) (use v' X(1) les pt len nc in auto)
  moreover have "?nc = max 1 (2 * capacity_m (data_m v))"
    using eq new_capacity_eq[of ?s] by simp
  ultimately show ?thesis using el v' len l64 by simp
qed

lemma Emplace_effect_live:
  assumes i: "inv_live v" and e: "Emplace E v pos (Some x) = Inr (v', r)"
  shows "pos \<le> size_m v \<and> r = pos \<and> size_m v' = size_m v + 1 \<and>
         elems v' = take pos (elems v) @ [x] @ drop pos (elems v) \<and> inv_live v' \<and>
         Capacity (data_m v') =
           (if size_m v < Capacity (data_m v) then Capacity (data_m v)
            else max 1 (2 * Capacity (data_m v))) \<and>
         (if size_m v < Capacity (data_m v) then length (slots v') = length (slots v)
          else length (slots v') = Capacity (data_m v') \<and> length (slots v') < 2 ^ 64)"
proof -
  from i have le: "size_m v \<le> length (slots v)" by (simp add: inv_live_iff)
  note C = Emplace_Inr_cases[OF e]
  from C have p: "pos \<le> size_m v" and r: "r = pos" by simp_all
  from C consider
      (atend) r' where "pos = size_m v" "EmplaceBack E v (Some x) = Inr (v', r')"
    | (inplace) bk m2 where "pos < size_m v" "size_m v < capacity_m (data_m v)"
        "size_m v < length (slots v)"
        "slots v ! (size_m v - 1) = Some bk"
        "std_move_backward E
           ((slots v)[size_m v - 1 := Some (moved_from E bk), size_m v := Some bk])
           (size_m v - 1) (size_m v - 1 - pos) (size_m v) = Inr m2"
        "v' = \<lparr>data_m = (data_m v)\<lparr>buffer_m := m2[pos := Some x]\<rparr>,
               size_m = size_m v + 1\<rparr>"
    | (growth) b old1 nd2 old2 nd3 where "pos < size_m v" "\<not> size_m v < capacity_m (data_m v)"
        "Allocate E (if size_m v = 0 then 1 else size_m v * 2) = Some b"
        "pos < length b"
        "UninitializedMoveOrCopy E (slots v) 0 pos (b[pos := Some x]) 0 = Inr (old1, nd2)"
        "UninitializedMoveOrCopy E old1 pos (size_m v - pos - 1 + 1) nd2 (pos + 1)
             = Inr (old2, nd3)"
        "v' = \<lparr>data_m = \<lparr>buffer_m = nd3,
                          capacity_m = (if size_m v = 0 then 1 else size_m v * 2)\<rparr>,
               size_m = size_m v + 1\<rparr>"
    by blast
  then show ?thesis
  proof cases
    case atend
    note B = EmplaceBack_effect_live[OF i atend(2)]
    from atend(1) length_elems[OF le]
    have "take pos (elems v) @ [x] @ drop pos (elems v) = elems v @ [x]" by simp
    then have el: "elems v' = take pos (elems v) @ [x] @ drop pos (elems v)"
      using B by simp
    from B have rest: "size_m v' = size_m v + 1" "inv_live v'"
      "Capacity (data_m v') =
         (if size_m v < Capacity (data_m v) then Capacity (data_m v)
          else max 1 (2 * Capacity (data_m v)))"
      "if size_m v < Capacity (data_m v) then length (slots v') = length (slots v)
       else length (slots v') = Capacity (data_m v') \<and> length (slots v') < 2 ^ 64"
      by blast+
    from p r el rest show ?thesis by blast
  next
    case inplace
    note G = Emplace_inplace_effect[OF i inplace(1,2,3,4,5,6)]
    from inplace(6) have "size_m v' = size_m v + 1" by simp
    with G inplace(2) p r show ?thesis by (simp add: Capacity_def)
  next
    case growth
    note G = Emplace_growth_effect[OF i growth(1,2,3,4,5,6,7)]
    from growth(7) have sz: "size_m v' = size_m v + 1" by simp
    from G have el: "elems v' = take pos (elems v) @ [x] @ drop pos (elems v)"
      and il: "inv_live v'" and c3: "length (slots v') < 2 ^ 64" by blast+
    from G have c1: "Capacity (data_m v') = max 1 (2 * Capacity (data_m v))"
      and c2: "length (slots v') = Capacity (data_m v')" by (simp_all add: Capacity_def)
    from growth(2) have ns: "\<not> size_m v < Capacity (data_m v)" by (simp add: Capacity_def)
    show ?thesis
      apply (simp only: ns if_False)
      using p r sz el il c1 c2 c3 by blast
  qed
qed

lemma Emplace_effect:
  assumes i: "inv v" and e: "Emplace E v pos (Some x) = Inr (v', r)"
  shows "pos \<le> size_m v \<and> r = pos \<and> size_m v' = size_m v + 1 \<and>
         elems v' = take pos (elems v) @ [x] @ drop pos (elems v) \<and> inv v' \<and>
         Capacity (data_m v') =
           (if size_m v < Capacity (data_m v) then Capacity (data_m v)
            else max 1 (2 * Capacity (data_m v)))"
proof -
  from i have il: "inv_live v" and bk: "capacity_m (data_m v) = length (slots v)"
    by (simp_all add: inv_iff)
  note L = Emplace_effect_live[OF il e]
  from L bk have "capacity_m (data_m v') = length (slots v')"
    by (auto simp: Capacity_def split: if_splits)
  with L show ?thesis by (auto simp: inv_iff)
qed

lemma Emplace_total:
  assumes i: "inv v" and p: "pos \<le> size_m v"
    and al: "size_m v < Capacity (data_m v) \<or>
             allocates E (max 1 (2 * Capacity (data_m v)))"
    and nt: "list_all (\<lambda>y. \<not> move_ctor_throws E y \<and> \<not> copy_ctor_throws E y \<and>
                           \<not> move_assign_throws E y) (x # elems v)"
  shows "\<exists>v'. Emplace E v pos (Some x) = Inr (v', pos)"
proof -
  from i have i: "inv_live v" and bkd: "capacity_m (data_m v) = length (slots v)"
    by (simp_all add: inv_iff)
  from i have sc: "size_m v \<le> capacity_m (data_m v)" and le: "size_m v \<le> length (slots v)"
    and live: "\<forall>i<size_m v. slots v ! i \<noteq> None" by (simp_all add: inv_live_iff)
  let ?s = "size_m v"
  let ?es = "elems v"
  have les: "length ?es = ?s" by (rule length_elems[OF le])
  from nt have ntx: "\<not> move_assign_throws E x"
    and ntl: "list_all (\<lambda>y. \<not> move_ctor_throws E y \<and> \<not> copy_ctor_throws E y \<and>
                           \<not> move_assign_throws E y) ?es"
    by simp_all
  from ntl have nte: "\<forall>j<?s. \<not> move_ctor_throws E (?es ! j) \<and> \<not> copy_ctor_throws E (?es ! j) \<and>
                      \<not> move_assign_throws E (?es ! j)"
    using les by (simp add: list_all_length)
  from ntl have ntc: "list_all (\<lambda>y. \<not> move_ctor_throws E y \<and> \<not> copy_ctor_throws E y) ?es"
    by (simp add: list_all_iff)
  show ?thesis
  proof (cases "pos = ?s")
    case True
    from al ntc have "size_m v < Capacity (data_m v) \<or>
             (allocates E (max 1 (2 * Capacity (data_m v))) \<and>
              list_all (\<lambda>y. \<not> move_ctor_throws E y \<and> \<not> copy_ctor_throws E y) (elems v))"
      by blast
    from EmplaceBack_total[OF assms(1) this, of x] obtain v' r
      where "EmplaceBack E v (Some x) = Inr (v', r)" by blast
    with True show ?thesis by (simp add: Emplace_def)
  next
    case False
    with p have lt: "pos < ?s" by simp
    show ?thesis
    proof (cases "?s < length (slots v)")
      case True
      let ?n = "?s - 1 - pos"
      from lt elems_nth[OF i, of "?s - 1"] have bk: "slots v ! (?s - 1) = Some (?es ! (?s - 1))"
        by simp
      let ?bk = "?es ! (?s - 1)"
      from lt nte have ntb: "\<not> move_ctor_throws E ?bk" by simp
      let ?m1 = "(slots v)[?s - 1 := Some (moved_from E ?bk), ?s := Some ?bk]"
      from lt have s1: "?s - 1 = pos + ?n" and s2: "?s = Suc (pos + ?n)" by simp_all
      have a: "\<forall>k\<le>?n. pos + k < length ?m1 \<and> ?m1 ! (pos + k) \<noteq> None"
      proof (intro allI impI)
        fix k assume "k \<le> ?n"
        with lt have k: "pos + k \<le> ?s - 1" by simp
        with lt True live show "pos + k < length ?m1 \<and> ?m1 ! (pos + k) \<noteq> None"
          by (cases "pos + k = ?s - 1") (simp_all add: nth_list_update)
      qed
      have b: "\<forall>k<?n. \<forall>y. ?m1 ! (pos + k) = Some y \<longrightarrow> \<not> move_assign_throws E y"
      proof (intro allI impI)
        fix k y assume "k < ?n" and y: "?m1 ! (pos + k) = Some y"
        with lt have k: "pos + k < ?s - 1" by simp
        with y have "slots v ! (pos + k) = Some y" by (simp add: nth_list_update)
        with elems_nth[OF i, of "pos + k"] k have "y = ?es ! (pos + k)" by simp
        with nte k show "\<not> move_assign_throws E y" by simp
      qed
      from std_move_backward_total[OF a b] obtain m2 where
        mb: "std_move_backward E ?m1 (pos + ?n) ?n (Suc (pos + ?n)) = Inr m2" by blast
      note M = std_move_backward_Inr[OF mb]
      from M have len: "length m2 = length (slots v)" by simp
      have "pos < length ?m1" "?m1 ! pos \<noteq> None"
        using a by (metis add.right_neutral le0)+
      with M have "m2 ! pos \<noteq> None" by blast
      then obtain y where y: "m2 ! pos = Some y" by auto
      from mb s1 s2 have mb': "std_move_backward E ?m1 (?s - 1) ?n ?s = Inr m2" by simp
      from lt True bk ntb mb' len y ntx False bkd show ?thesis
        by (simp add: Emplace_def Let_def Capacity_def construct_at_def RawMemory_index_def)
    next
      case False
      with le bkd have eq: "?s = length (slots v)" by simp
      let ?nc = "if ?s = 0 then 1 else ?s * 2"
      have nc: "?nc = max 1 (2 * Capacity (data_m v))"
        using eq bkd new_capacity_eq[of ?s] by (simp add: Capacity_def)
      from False al nc bkd have alc: "allocates E ?nc" by (simp add: Capacity_def)
      note ctor = RawMemory_ctor_allocates[OF alc]
      let ?nd1 = "(replicate ?nc None)[pos := Some x]"
      have "0 + pos \<le> length ?nd1" using lt by simp
      moreover have "\<forall>k<pos. 0 + k < length (slots v) \<and>
          (\<exists>y. slots v ! (0 + k) = Some y \<and> \<not> move_ctor_throws E y \<and> \<not> copy_ctor_throws E y)"
        using lt le nte elems_nth[OF i] by simp
      ultimately obtain old1 nd2 where
        u1: "UninitializedMoveOrCopy E (slots v) 0 pos ?nd1 0 = Inr (old1, nd2)"
        using UninitializedMoveOrCopy_total[of 0 pos ?nd1 0 "slots v" E] by auto
      note U1 = UninitializedMoveOrCopy_Inr[OF u1]
      have "pos + 1 + (?s - pos - 1 + 1) \<le> length nd2" using U1 lt by simp
      moreover have "\<forall>k<?s - pos - 1 + 1. pos + k < length old1 \<and>
          (\<exists>y. old1 ! (pos + k) = Some y \<and> \<not> move_ctor_throws E y \<and> \<not> copy_ctor_throws E y)"
      proof (intro allI impI)
        fix k assume "k < ?s - pos - 1 + 1"
        with lt have k: "pos + k < ?s" by simp
        from U1 have "old1 ! (pos + k) = slots v ! (pos + k)" by simp
        with k elems_nth[OF i k] nte U1 le
        show "pos + k < length old1 \<and>
          (\<exists>y. old1 ! (pos + k) = Some y \<and> \<not> move_ctor_throws E y \<and> \<not> copy_ctor_throws E y)"
          by simp
      qed
      ultimately obtain old2 nd3 where
        u2: "UninitializedMoveOrCopy E old1 pos (?s - pos - 1 + 1) nd2 (pos + 1) = Inr (old2, nd3)"
        using UninitializedMoveOrCopy_total[of "pos + 1" "?s - pos - 1 + 1" nd2 pos old1 E] by auto
      note U2 = UninitializedMoveOrCopy_Inr[OF u2]
      have "\<forall>k. 0 \<le> k \<and> k < 0 + ?s \<longrightarrow> k < length old2 \<and> old2 ! k \<noteq> None"
      proof (intro allI impI)
        fix k assume "0 \<le> k \<and> k < 0 + ?s"
        then have k: "k < ?s" by simp
        show "k < length old2 \<and> old2 ! k \<noteq> None"
        proof (cases "k < pos")
          case True
          with U1 have "old1 ! (0 + k) \<noteq> None" by blast
          moreover from True U2 have "old2 ! k = old1 ! k" by simp
          ultimately show ?thesis using U1 U2 k le by simp
        next
          case False
          then obtain d where d: "k = pos + d" using le_Suc_ex[of pos k] by auto
          with k lt have "d < ?s - pos - 1 + 1" by simp
          with U2 have "old2 ! (pos + d) \<noteq> None" by blast
          with d U1 U2 k le show ?thesis by simp
        qed
      qed
      from destroy_n_total[OF this] obtain old3 where d: "destroy_n old2 0 ?s = Some old3"
        by blast
      from lt False ctor u1 u2 d \<open>pos \<noteq> ?s\<close> bkd show ?thesis
        by (simp add: Emplace_def Let_def Capacity_def construct_at_def
                 split: if_splits)
    qed
  qed
qed

lemma Emplace_None: "Emplace E v pos None \<noteq> Inr z"
  using EmplaceBack_None[of E v]
  by (auto simp: Emplace_def Let_def split: option.splits sum.splits)

lemma construct_from_Some:
  "construct_from E val = Some y \<Longrightarrow> val = Lvalue y \<or> val = Rvalue y"
  by (cases val) (auto split: if_splits)

lemma Insert_Inr:
  assumes "Insert E v pos val = Inr (v', r)"
  shows "\<exists>y. (val = Lvalue y \<or> val = Rvalue y) \<and> Emplace E v pos (Some y) = Inr (v', r)"
proof (cases "construct_from E val")
  case None
  with assms Emplace_None[of E v pos] show ?thesis by (simp add: Insert_def)
next
  case (Some y)
  with assms construct_from_Some[OF Some] show ?thesis by (auto simp: Insert_def)
qed

lemma Vector_copy_Inr_cases:
  assumes "Vector_copy E other = Inr c"
  shows "\<exists>b m. Allocate E (size_m other) = Some b \<and>
               uninitialized_copy_n E (slots other) 0 (size_m other) b 0 = Inr m \<and>
               c = \<lparr>data_m = \<lparr>buffer_m = m, capacity_m = size_m other\<rparr>,
                    size_m = size_m other\<rparr>"
  using assms
  by (auto simp: Vector_copy_def RawMemory_ctor_def
           split: if_splits option.splits sum.splits fault.splits)

lemma Vector_copy_effect:
  assumes i: "inv_live other" and e: "Vector_copy E other = Inr c"
  shows "size_m c = size_m other \<and> elems c = elems other \<and>
         Capacity (data_m c) = size_m other \<and>
         length (slots c) = size_m other \<and> inv c"
proof -
  from i have le: "size_m other \<le> length (slots other)" by (simp add: inv_live_iff)
  from Vector_copy_Inr_cases[OF e] obtain b m where
    al: "Allocate E (size_m other) = Some b"
    and u: "uninitialized_copy_n E (slots other) 0 (size_m other) b 0 = Inr m"
    and c: "c = \<lparr>data_m = \<lparr>buffer_m = m, capacity_m = size_m other\<rparr>,
                 size_m = size_m other\<rparr>" by blast
  note U = uninitialized_copy_n_Inr[OF u]
  have room: "size_m other \<le> length b"
  proof (cases "size_m other")
    case 0
    then show ?thesis by simp
  next
    case (Suc k)
    then have "k < size_m other" by simp
    with U have "0 + k < length b" by blast
    with Suc show ?thesis by simp
  qed
  with Allocate_length_le[OF al] U have len: "length m = size_m other" by simp
  from U have pre: "\<forall>k<size_m other. m ! k = slots other ! k" by simp
  have pt: "\<forall>j<length (elems other). slots c ! j = Some (elems other ! j)"
    using c pre elems_nth[OF i] length_elems[OF le] by simp
  have el: "elems c = elems other"
    by (rule elems_eqI) (use c len pt length_elems[OF le] in simp_all)
  have "inv_live c"
    by (rule inv_liveI) (use c len pt length_elems[OF le] in auto)
  with el c len show ?thesis by (simp add: inv_iff Capacity_def)
qed

lemma Vector_copy_total:
  assumes i: "inv_live other"
    and al: "allocates E (size_m other)"
    and nt: "list_all (\<lambda>y. \<not> copy_ctor_throws E y) (elems other)"
  shows "\<exists>c. Vector_copy E other = Inr c"
proof -
  from i have le: "size_m other \<le> length (slots other)" by (simp add: inv_live_iff)
  have "0 + size_m other \<le> length (replicate (size_m other) (None :: 'a option))" by simp
  moreover have "\<forall>k<size_m other. 0 + k < length (slots other) \<and>
      (\<exists>y. slots other ! (0 + k) = Some y \<and> \<not> copy_ctor_throws E y)"
  proof (intro allI impI)
    fix k assume k: "k < size_m other"
    with nt length_elems[OF le] have "\<not> copy_ctor_throws E (elems other ! k)"
      by (simp add: list_all_length)
    with elems_nth[OF i k] k le
    show "0 + k < length (slots other) \<and>
      (\<exists>y. slots other ! (0 + k) = Some y \<and> \<not> copy_ctor_throws E y)" by simp
  qed
  ultimately obtain m where
    "uninitialized_copy_n E (slots other) 0 (size_m other)
       (replicate (size_m other) None) 0 = Inr m"
    using uninitialized_copy_n_total[of 0 "size_m other" "replicate (size_m other) None"
            0 "slots other" E] by auto
  with RawMemory_ctor_allocates[OF al] show ?thesis by (simp add: Vector_copy_def)
qed

lemma operator_assign_copy_Inr_cases:
  assumes e: "operator_assign_copy E v rhs = Inr v'"
  shows "(size_m rhs > capacity_m (data_m v) \<and> Vector_copy E rhs = Inr v')
       \<or> (size_m rhs \<le> capacity_m (data_m v) \<and> size_m rhs < size_m v \<and>
            (\<exists>m m'. std_copy E (slots rhs) 0 (size_m rhs) (slots v) 0 = Inr m \<and>
                    destroy_n m (size_m rhs) (size_m v - size_m rhs) = Some m' \<and>
                    v' = \<lparr>data_m = (data_m v)\<lparr>buffer_m := m'\<rparr>, size_m = size_m rhs\<rparr>))
       \<or> (size_m rhs \<le> capacity_m (data_m v) \<and> \<not> size_m rhs < size_m v \<and>
            (\<exists>m m'. std_copy E (slots rhs) 0 (size_m v) (slots v) 0 = Inr m \<and>
                    uninitialized_copy_n E (slots rhs) (size_m v) (size_m rhs - size_m v)
                      m (size_m v) = Inr m' \<and>
                    v' = \<lparr>data_m = (data_m v)\<lparr>buffer_m := m'\<rparr>, size_m = size_m rhs\<rparr>))"
proof (cases "size_m rhs > capacity_m (data_m v)")
  case True
  with e show ?thesis
    by (auto simp: operator_assign_copy_def Capacity_def Swap_def
             split: sum.splits abort.splits option.splits)
next
  case False
  show ?thesis
  proof (cases "size_m rhs < size_m v")
    case True
    with e False show ?thesis
      by (auto simp: operator_assign_copy_def Capacity_def
               split: sum.splits fault.splits option.splits)
  next
    case nlt: False
    with e False show ?thesis
      by (auto simp: operator_assign_copy_def Capacity_def
               split: sum.splits fault.splits option.splits)
  qed
qed

lemma operator_assign_copy_effect_live:
  assumes i: "inv_live v" and ir: "inv_live rhs" and e: "operator_assign_copy E v rhs = Inr v'"
  shows "size_m v' = size_m rhs \<and> elems v' = elems rhs \<and> inv_live v' \<and>
         Capacity (data_m v') =
           (if size_m rhs > Capacity (data_m v) then size_m rhs else Capacity (data_m v)) \<and>
         (\<forall>j. size_m rhs \<le> j \<and> j < size_m v \<and> size_m rhs \<le> Capacity (data_m v)
               \<longrightarrow> slots v' ! j = None) \<and>
         length (slots v') =
           (if size_m rhs > Capacity (data_m v) then size_m rhs else length (slots v))"
proof -
  from i have sc: "size_m v \<le> capacity_m (data_m v)" and le: "size_m v \<le> length (slots v)"
    by (simp_all add: inv_live_iff)
  from ir have ler: "size_m rhs \<le> length (slots rhs)" by (simp add: inv_live_iff)
  have lr: "length (elems rhs) = size_m rhs" by (rule length_elems[OF ler])
  from operator_assign_copy_Inr_cases[OF e] consider
      (grow) "size_m rhs > capacity_m (data_m v)" "Vector_copy E rhs = Inr v'"
    | (shrink) m m' where "size_m rhs \<le> capacity_m (data_m v)" "size_m rhs < size_m v"
        "std_copy E (slots rhs) 0 (size_m rhs) (slots v) 0 = Inr m"
        "destroy_n m (size_m rhs) (size_m v - size_m rhs) = Some m'"
        "v' = \<lparr>data_m = (data_m v)\<lparr>buffer_m := m'\<rparr>, size_m = size_m rhs\<rparr>"
    | (extend) m m' where "size_m rhs \<le> capacity_m (data_m v)" "\<not> size_m rhs < size_m v"
        "std_copy E (slots rhs) 0 (size_m v) (slots v) 0 = Inr m"
        "uninitialized_copy_n E (slots rhs) (size_m v) (size_m rhs - size_m v)
           m (size_m v) = Inr m'"
        "v' = \<lparr>data_m = (data_m v)\<lparr>buffer_m := m'\<rparr>, size_m = size_m rhs\<rparr>"
    by blast
  then show ?thesis
  proof cases
    case grow
    from Vector_copy_effect[OF ir grow(2)] grow(1) show ?thesis
      by (simp add: Capacity_def inv_iff)
  next
    case shrink
    note S = std_copy_Inr[OF shrink(3)]
    from S destroy_n_length[OF shrink(4)] have len: "length m' = length (slots v)" by simp
    from shrink(2) le have fits: "size_m rhs \<le> length (slots v)" by simp
    have pt: "\<forall>j<length (elems rhs). slots v' ! j = Some (elems rhs ! j)"
    proof (intro allI impI)
      fix j assume "j < length (elems rhs)"
      with lr have j: "j < size_m rhs" by simp
      with destroy_n_outside[OF shrink(4), of j] have "m' ! j = m ! j" by simp
      moreover from j S have "m ! (0 + j) = slots rhs ! (0 + j)" by blast
      ultimately show "slots v' ! j = Some (elems rhs ! j)"
        using shrink(5) elems_nth[OF ir j] by simp
    qed
    have el: "elems v' = elems rhs"
      by (rule elems_eqI) (use fits shrink(5) len pt lr in simp_all)
    have "inv_live v'"
      by (rule inv_liveI) (use fits shrink(1,5) len pt lr in auto)
    moreover have "\<forall>j. size_m rhs \<le> j \<and> j < size_m v \<longrightarrow> slots v' ! j = None"
      using destroy_n_inside[OF shrink(4)] shrink(2,5) by simp
    ultimately show ?thesis using el shrink(1,5) len by (simp add: Capacity_def)
  next
    case extend
    note S = std_copy_Inr[OF extend(3)]
    note U = uninitialized_copy_n_Inr[OF extend(4)]
    from S U have len: "length m' = length (slots v)" by simp
    have fits: "size_m rhs \<le> length (slots v)"
    proof (cases "size_m rhs - size_m v")
      case 0
      with extend(2) le show ?thesis by simp
    next
      case (Suc k)
      then have "k < size_m rhs - size_m v" by simp
      with U have "size_m v + k < length m" by blast
      with Suc S show ?thesis by simp
    qed
    have pt: "\<forall>j<length (elems rhs). slots v' ! j = Some (elems rhs ! j)"
    proof (intro allI impI)
      fix j assume "j < length (elems rhs)"
      with lr have j: "j < size_m rhs" by simp
      show "slots v' ! j = Some (elems rhs ! j)"
      proof (cases "j < size_m v")
        case True
        with U have "m' ! j = m ! j" by simp
        moreover from True S have "m ! (0 + j) = slots rhs ! (0 + j)" by blast
        ultimately show ?thesis using extend(5) elems_nth[OF ir j] by simp
      next
        case False
        then obtain k where k: "j = size_m v + k" using le_Suc_ex[of "size_m v" j] by auto
        with j have "k < size_m rhs - size_m v" by simp
        with U have "m' ! (size_m v + k) = slots rhs ! (size_m v + k)" by blast
        with k show ?thesis using extend(5) elems_nth[OF ir j] by simp
      qed
    qed
    have el: "elems v' = elems rhs"
      by (rule elems_eqI) (use fits extend(5) len pt lr in simp_all)
    have "inv_live v'"
      by (rule inv_liveI) (use fits extend(1,5) len pt lr in auto)
    with el extend(1,2,5) len show ?thesis by (auto simp: Capacity_def)
  qed
qed

lemma operator_assign_copy_effect:
  assumes i: "inv v" and ir: "inv rhs" and e: "operator_assign_copy E v rhs = Inr v'"
  shows "size_m v' = size_m rhs \<and> elems v' = elems rhs \<and> inv v' \<and>
         Capacity (data_m v') =
           (if size_m rhs > Capacity (data_m v) then size_m rhs else Capacity (data_m v)) \<and>
         (\<forall>j. size_m rhs \<le> j \<and> j < size_m v \<and> size_m rhs \<le> Capacity (data_m v)
               \<longrightarrow> slots v' ! j = None)"
proof -
  from i have il: "inv_live v" and bk: "capacity_m (data_m v) = length (slots v)"
    by (simp_all add: inv_iff)
  from ir have ilr: "inv_live rhs" by (simp add: inv_iff)
  note L = operator_assign_copy_effect_live[OF il ilr e]
  from L bk have "capacity_m (data_m v') = length (slots v')"
    by (auto simp: Capacity_def split: if_splits)
  with L show ?thesis by (auto simp: inv_iff)
qed

lemma Vector_dtor_total: "inv_live v \<Longrightarrow> \<exists>m. Vector_dtor v = Some m"
proof -
  assume "inv_live v"
  then have "\<forall>k. 0 \<le> k \<and> k < 0 + size_m v \<longrightarrow> k < length (slots v) \<and> slots v ! k \<noteq> None"
    by (auto simp: inv_live_iff)
  from destroy_n_total[OF this] show ?thesis by (simp add: Vector_dtor_def)
qed

lemma operator_assign_copy_total:
  assumes i: "inv v" and ir: "inv rhs"
    and al: "size_m rhs \<le> Capacity (data_m v) \<or> allocates E (size_m rhs)"
    and nt: "list_all (\<lambda>y. \<not> copy_ctor_throws E y \<and> \<not> copy_assign_throws E y) (elems rhs)"
  shows "\<exists>v'. operator_assign_copy E v rhs = Inr v'"
proof -
  from i have i: "inv_live v" and bk: "capacity_m (data_m v) = length (slots v)"
    by (simp_all add: inv_iff)
  from ir have ir: "inv_live rhs" by (simp add: inv_iff)
  from i have le: "size_m v \<le> length (slots v)"
    and live: "\<forall>i<size_m v. slots v ! i \<noteq> None" by (simp_all add: inv_live_iff)
  from ir have ler: "size_m rhs \<le> length (slots rhs)" by (simp add: inv_live_iff)
  have lr: "length (elems rhs) = size_m rhs" by (rule length_elems[OF ler])
  from nt lr have nte: "\<forall>j<size_m rhs. \<not> copy_ctor_throws E (elems rhs ! j) \<and>
                                        \<not> copy_assign_throws E (elems rhs ! j)"
    by (simp add: list_all_length)
  have src: "\<forall>j<size_m rhs. j < length (slots rhs) \<and>
               (\<exists>y. slots rhs ! j = Some y \<and> \<not> copy_ctor_throws E y \<and> \<not> copy_assign_throws E y)"
    using nte elems_nth[OF ir] ler by simp
  show ?thesis
  proof (cases "size_m rhs > length (slots v)")
    case True
    from nt have "list_all (\<lambda>y. \<not> copy_ctor_throws E y) (elems rhs)"
      by (simp add: list_all_iff)
    moreover from True al bk have "allocates E (size_m rhs)" by (simp add: Capacity_def)
    ultimately obtain c where c: "Vector_copy E rhs = Inr c"
      using Vector_copy_total[OF ir] by blast
    have "inv_live \<lparr>data_m = data_m v, size_m = size_m v\<rparr>" using i by (simp add: inv_live_iff)
    from Vector_dtor_total[OF this] obtain rel where
      "Vector_dtor \<lparr>data_m = data_m v, size_m = size_m v\<rparr> = Some rel" by blast
    with True c bk show ?thesis
      by (simp add: operator_assign_copy_def Capacity_def Swap_def)
  next
    case False
    then have fits: "size_m rhs \<le> length (slots v)" by simp
    show ?thesis
    proof (cases "size_m rhs < size_m v")
      case True
      have "0 + size_m rhs \<le> length (slots v)" using fits by simp
      moreover have "\<forall>k<size_m rhs. slots v ! (0 + k) \<noteq> None" using True live by simp
      moreover have "\<forall>k<size_m rhs. 0 + k < length (slots rhs) \<and>
          (\<exists>y. slots rhs ! (0 + k) = Some y \<and> \<not> copy_assign_throws E y)"
        using src by auto
      ultimately obtain m where
        sc: "std_copy E (slots rhs) 0 (size_m rhs) (slots v) 0 = Inr m"
        using std_copy_total[of 0 "size_m rhs" "slots v" 0 "slots rhs" E] by blast
      note S = std_copy_Inr[OF sc]
      have "\<forall>k. size_m rhs \<le> k \<and> k < size_m rhs + (size_m v - size_m rhs)
               \<longrightarrow> k < length m \<and> m ! k \<noteq> None"
        using S True le live by simp
      from destroy_n_total[OF this] obtain m' where
        "destroy_n m (size_m rhs) (size_m v - size_m rhs) = Some m'" by blast
      with sc fits True bk show ?thesis
        by (simp add: operator_assign_copy_def Capacity_def)
    next
      case nlt: False
      have "0 + size_m v \<le> length (slots v)" using le by simp
      moreover have "\<forall>k<size_m v. slots v ! (0 + k) \<noteq> None" using live by simp
      moreover have "\<forall>k<size_m v. 0 + k < length (slots rhs) \<and>
          (\<exists>y. slots rhs ! (0 + k) = Some y \<and> \<not> copy_assign_throws E y)"
      proof (intro allI impI)
        fix k assume "k < size_m v"
        with nlt have "k < size_m rhs" by simp
        with src show "0 + k < length (slots rhs) \<and>
          (\<exists>y. slots rhs ! (0 + k) = Some y \<and> \<not> copy_assign_throws E y)" by auto
      qed
      ultimately obtain m where
        sc: "std_copy E (slots rhs) 0 (size_m v) (slots v) 0 = Inr m"
        using std_copy_total[of 0 "size_m v" "slots v" 0 "slots rhs" E] by blast
      note S = std_copy_Inr[OF sc]
      have "size_m v + (size_m rhs - size_m v) \<le> length m" using S nlt fits by simp
      moreover have "\<forall>k<size_m rhs - size_m v. size_m v + k < length (slots rhs) \<and>
          (\<exists>y. slots rhs ! (size_m v + k) = Some y \<and> \<not> copy_ctor_throws E y)"
      proof (intro allI impI)
        fix k assume "k < size_m rhs - size_m v"
        then have "size_m v + k < size_m rhs" by simp
        with src show "size_m v + k < length (slots rhs) \<and>
          (\<exists>y. slots rhs ! (size_m v + k) = Some y \<and> \<not> copy_ctor_throws E y)" by blast
      qed
      ultimately obtain m' where
        "uninitialized_copy_n E (slots rhs) (size_m v) (size_m rhs - size_m v) m (size_m v)
           = Inr m'"
        using uninitialized_copy_n_total[of "size_m v" "size_m rhs - size_m v" m
                "size_m v" "slots rhs" E] by blast
      with sc fits nlt bk show ?thesis
        by (simp add: operator_assign_copy_def Capacity_def)
    qed
  qed
qed

lemma inv_size_tI:
  "size_m v \<le> capacity_m (data_m v) \<Longrightarrow> size_m v \<le> length (slots v) \<Longrightarrow>
   \<forall>j<size_m v. slots v ! j \<noteq> None \<Longrightarrow> length (slots v) < 2 ^ 64 \<Longrightarrow> inv_size_t v"
  by (simp add: inv_size_t_def inv_live_iff)

lemma inv_size_tD:
  "inv_size_t v \<Longrightarrow> inv_live v"
  "inv_size_t v \<Longrightarrow> size_m v \<le> length (slots v)"
  "inv_size_t v \<Longrightarrow> j < size_m v \<Longrightarrow> slots v ! j \<noteq> None"
  "inv_size_t v \<Longrightarrow> length (slots v) < 2 ^ 64"
  "inv_size_t v \<Longrightarrow> size_m v \<le> capacity_m (data_m v)"
  by (simp_all add: inv_size_t_def inv_live_iff)

lemma inv_size_t_data:
  assumes "inv_size_t v" and "length m = length (slots v)"
    and "\<forall>j<size_m v. m ! j \<noteq> None"
  shows "inv_size_t (v\<lparr>data_m := (data_m v)\<lparr>buffer_m := m\<rparr>\<rparr>)"
  by (rule inv_size_tI) (use assms inv_size_tD[OF assms(1)] in simp_all)

lemma EmplaceBack_inv_size_t:
  assumes g: "inv_size_t v" and e: "EmplaceBack E v arg = Inr (v', r)"
  shows "inv_size_t v'"
proof -
  from e EmplaceBack_None[of E v "(v', r)"] obtain x where x: "arg = Some x"
    by (cases arg) auto
  with e have e': "EmplaceBack E v (Some x) = Inr (v', r)" by simp
  note R = EmplaceBack_effect_live[OF inv_size_tD(1)[OF g] e']
  from R inv_size_tD(4)[OF g] have "length (slots v') < 2 ^ 64"
    by (auto split: if_splits)
  with R show ?thesis by (simp add: inv_size_t_def)
qed

lemma EmplaceBack_Threw_cases:
  assumes "EmplaceBack E v arg = Inl (Threw e v' blk)"
  shows "v' = v \<or>
         (\<exists>dst old nd. UninitializedMoveOrCopy E (slots v) 0 (size_m v) dst 0
                          = Inl (Throw (old, nd)) \<and>
                        v' = v\<lparr>data_m := (data_m v)\<lparr>buffer_m := old\<rparr>\<rparr>)"
  using assms
  by (auto simp: EmplaceBack_def Let_def RawMemory_index_def
           split: if_splits option.splits sum.splits fault.splits prod.splits)

lemma migrate_Throw_inv_size_t:
  assumes g: "inv_size_t v"
    and u: "UninitializedMoveOrCopy E (slots v) first n dst d = Inl (Throw (old, nd))"
  shows "inv_size_t (v\<lparr>data_m := (data_m v)\<lparr>buffer_m := old\<rparr>\<rparr>)"
proof (rule inv_size_t_data[OF g])
  note U = UninitializedMoveOrCopy_Throw[OF u]
  from U show "length old = length (slots v)" by simp
  show "\<forall>j<size_m v. old ! j \<noteq> None"
    using U inv_size_tD(2,3)[OF g] by auto
qed

lemma EmplaceBack_Threw_inv_size_t:
  assumes g: "inv_size_t v" and e: "EmplaceBack E v arg = Inl (Threw ex v' blk)"
  shows "inv_size_t v'"
  using EmplaceBack_Threw_cases[OF e] g migrate_Throw_inv_size_t[OF g] by auto

lemma PushBack_inv_size_t:
  assumes g: "inv_size_t v"
  shows "PushBack E v val = Inr v' \<Longrightarrow> inv_size_t v'"
    and "PushBack E v val = Inl (Threw ex v' blk) \<Longrightarrow> inv_size_t v'"
proof -
  assume "PushBack E v val = Inr v'"
  then obtain r where "EmplaceBack E v (construct_from E val) = Inr (v', r)"
    by (auto simp: PushBack_def split: sum.splits)
  from EmplaceBack_inv_size_t[OF g this] show "inv_size_t v'" .
next
  assume "PushBack E v val = Inl (Threw ex v' blk)"
  then have "EmplaceBack E v (construct_from E val) = Inl (Threw ex v' blk)"
    by (auto simp: PushBack_def split: sum.splits)
  from EmplaceBack_Threw_inv_size_t[OF g this] show "inv_size_t v'" .
qed

lemma PopBack_inv_size_t:
  assumes g: "inv_size_t v" and e: "PopBack v = Inr v'"
  shows "inv_size_t v' \<and> 0 < size_m v \<and> size_m v' = size_m v - 1"
proof -
  let ?i = "size_t_sub (size_m v) 1"
  from e have i: "?i < length (slots v)"
    and v': "v' = \<lparr>data_m = (data_m v)\<lparr>buffer_m := (slots v)[?i := None]\<rparr>, size_m = ?i\<rparr>"
    by (auto simp: PopBack_def destroy_at_def split: option.splits if_splits)
  have pos: "0 < size_m v"
  proof (rule ccontr)
    assume "\<not> 0 < size_m v"
    then have "?i = 2 ^ 64 - 1" by (simp add: size_t_sub_def)
    with i inv_size_tD(4)[OF g] show False by simp
  qed
  then have si: "?i = size_m v - 1" by (simp add: size_t_sub_def)
  have "inv_size_t v'"
    by (rule inv_size_tI) (use v' si pos inv_size_tD[OF g] in auto)
  with pos si v' show ?thesis by simp
qed

lemma Erase_Threw_inv_size_t:
  assumes g: "inv_size_t v" and e: "Erase E v pos = Inl (Threw ex v' blk)"
  shows "inv_size_t v'"
proof -
  from e obtain m where m: "std_move E (slots v) (pos + 1) (size_m v - (pos + 1)) pos = Inl (Throw m)"
    and v': "v' = v\<lparr>data_m := (data_m v)\<lparr>buffer_m := m\<rparr>\<rparr>"
    by (auto simp: Erase_def split: if_splits option.splits sum.splits fault.splits)
  note M = std_move_Throw[OF m]
  show ?thesis unfolding v'
  proof (rule inv_size_t_data[OF g])
    from M show "length m = length (slots v)" by simp
    show "\<forall>j<size_m v. m ! j \<noteq> None" using M inv_size_tD(2,3)[OF g] by auto
  qed
qed

lemma Erase_inv_size_t:
  assumes g: "inv_size_t v" and e: "Erase E v pos = Inr (v', r)"
  shows "inv_size_t v'"
  using Erase_effect_live[OF inv_size_tD(1)[OF g] e] inv_size_tD(4)[OF g]
  by (simp add: inv_size_t_def)

lemma Emplace_inv_size_t:
  assumes g: "inv_size_t v" and e: "Emplace E v pos arg = Inr (v', r)"
  shows "inv_size_t v'"
proof -
  from e Emplace_None[of E v pos "(v', r)"] obtain x where x: "arg = Some x"
    by (cases arg) auto
  with e have e': "Emplace E v pos (Some x) = Inr (v', r)" by simp
  note R = Emplace_effect_live[OF inv_size_tD(1)[OF g] e']
  from R inv_size_tD(4)[OF g] have "length (slots v') < 2 ^ 64"
    by (auto split: if_splits)
  with R show ?thesis by (simp add: inv_size_t_def)
qed

lemma Emplace_Threw_cases:
  assumes e: "Emplace E v pos arg = Inl (Threw ex v' blk)"
  shows "v' = v
       \<or> EmplaceBack E v arg = Inl (Threw ex v' blk)
       \<or> (\<exists>bk m2. size_m v < length (slots v) \<and> pos < size_m v \<and>
            (std_move_backward E
               ((slots v)[size_m v - 1 := Some (moved_from E bk), size_m v := Some bk])
               (size_m v - 1) (size_m v - 1 - pos) (size_m v) = Inl (Throw m2) \<or>
             std_move_backward E
               ((slots v)[size_m v - 1 := Some (moved_from E bk), size_m v := Some bk])
               (size_m v - 1) (size_m v - 1 - pos) (size_m v) = Inr m2) \<and>
            v' = v\<lparr>data_m := (data_m v)\<lparr>buffer_m := m2\<rparr>\<rparr>)
       \<or> (\<exists>dst old nd. UninitializedMoveOrCopy E (slots v) 0 pos dst 0
                           = Inl (Throw (old, nd)) \<and>
                         v' = v\<lparr>data_m := (data_m v)\<lparr>buffer_m := old\<rparr>\<rparr>)
       \<or> (\<exists>dst old1 nd2 n2 d2 old2 nd3.
            UninitializedMoveOrCopy E (slots v) 0 pos dst 0 = Inr (old1, nd2) \<and>
            UninitializedMoveOrCopy E old1 pos n2 nd2 d2 = Inl (Throw (old2, nd3)) \<and>
            v' = v\<lparr>data_m := (data_m v)\<lparr>buffer_m := old2\<rparr>\<rparr>)"
proof -
  from e have le: "pos \<le> size_m v" by (auto simp: Emplace_def split: if_splits)
  show ?thesis
  proof (cases "pos = size_m v")
    case True
    with e show ?thesis
      by (auto simp: Emplace_def Let_def split: sum.splits)
  next
    case False
    with le have lt: "pos < size_m v" by simp
    show ?thesis
    proof (cases "size_m v < capacity_m (data_m v)")
      case True
      with e lt show ?thesis
        by (auto simp: Emplace_def Let_def Capacity_def construct_at_def RawMemory_index_def
                 split: if_splits option.splits sum.splits fault.splits)
    next
      case False
      with e lt show ?thesis
        apply (simp add: Emplace_def Let_def Capacity_def construct_at_def RawMemory_ctor_def
                 split: if_splits option.splits sum.splits fault.splits prod.splits)
         apply blast
        apply blast
        done
    qed
  qed
qed

lemma Emplace_Threw_inv_size_t:
  assumes g: "inv_size_t v" and e: "Emplace E v pos arg = Inl (Threw ex v' blk)"
  shows "inv_size_t v'"
proof -
  note le = inv_size_tD(2)[OF g]
  note live = inv_size_tD(3)[OF g]
  from Emplace_Threw_cases[OF e] consider
      (same) "v' = v"
    | (atend) "EmplaceBack E v arg = Inl (Threw ex v' blk)"
    | (inplace) bk m2 where "size_m v < length (slots v)" "pos < size_m v"
        "std_move_backward E
           ((slots v)[size_m v - 1 := Some (moved_from E bk), size_m v := Some bk])
           (size_m v - 1) (size_m v - 1 - pos) (size_m v) = Inl (Throw m2) \<or>
         std_move_backward E
           ((slots v)[size_m v - 1 := Some (moved_from E bk), size_m v := Some bk])
           (size_m v - 1) (size_m v - 1 - pos) (size_m v) = Inr m2"
        "v' = v\<lparr>data_m := (data_m v)\<lparr>buffer_m := m2\<rparr>\<rparr>"
    | (prefix) dst old nd where
        "UninitializedMoveOrCopy E (slots v) 0 pos dst 0 = Inl (Throw (old, nd))"
        "v' = v\<lparr>data_m := (data_m v)\<lparr>buffer_m := old\<rparr>\<rparr>"
    | (suffix) dst old1 nd2 n2 d2 old2 nd3 where
        "UninitializedMoveOrCopy E (slots v) 0 pos dst 0 = Inr (old1, nd2)"
        "UninitializedMoveOrCopy E old1 pos n2 nd2 d2 = Inl (Throw (old2, nd3))"
        "v' = v\<lparr>data_m := (data_m v)\<lparr>buffer_m := old2\<rparr>\<rparr>"
    by blast
  then show ?thesis
  proof cases
    case same
    with g show ?thesis by simp
  next
    case atend
    from EmplaceBack_Threw_inv_size_t[OF g this] show ?thesis .
  next
    case inplace
    let ?s = "size_m v"
    let ?n = "?s - 1 - pos"
    let ?m1 = "(slots v)[?s - 1 := Some (moved_from E bk), ?s := Some bk]"
    from inplace(2) have s1: "?s - 1 = pos + ?n" and s2: "?s = Suc (pos + ?n)" by simp_all
    have keep: "length m2 = length ?m1 \<and> (\<forall>j<length ?m1. ?m1 ! j \<noteq> None \<longrightarrow> m2 ! j \<noteq> None)"
    proof -
      from inplace(3) show ?thesis
      proof
        assume "std_move_backward E ?m1 (?s - 1) ?n ?s = Inl (Throw m2)"
        from std_move_backward_Throw[OF this] show ?thesis .
      next
        assume "std_move_backward E ?m1 (?s - 1) ?n ?s = Inr m2"
        with s1 s2 have "std_move_backward E ?m1 (pos + ?n) ?n (Suc (pos + ?n)) = Inr m2"
          by simp
        from std_move_backward_Inr[OF this] show ?thesis by blast
      qed
    qed
    show ?thesis unfolding inplace(4)
    proof (rule inv_size_t_data[OF g])
      from keep show "length m2 = length (slots v)" by simp
      show "\<forall>j<size_m v. m2 ! j \<noteq> None"
      proof (intro allI impI)
        fix j assume j: "j < size_m v"
        with inplace(1) live[OF j] have "?m1 ! j \<noteq> None"
          by (cases "j = ?s - 1") (simp_all add: nth_list_update)
        with keep j inplace(1) show "m2 ! j \<noteq> None" by simp
      qed
    qed
  next
    case prefix
    from migrate_Throw_inv_size_t[OF g prefix(1)] prefix(2) show ?thesis by simp
  next
    case suffix
    note U1 = UninitializedMoveOrCopy_Inr[OF suffix(1)]
    note U2 = UninitializedMoveOrCopy_Throw[OF suffix(2)]
    show ?thesis unfolding suffix(3)
    proof (rule inv_size_t_data[OF g])
      from U1 U2 show "length old2 = length (slots v)" by simp
      show "\<forall>j<size_m v. old2 ! j \<noteq> None"
      proof (intro allI impI)
        fix j assume j: "j < size_m v"
        have "old1 ! j \<noteq> None"
        proof (cases "j < pos")
          case True
          with U1 have "old1 ! (0 + j) \<noteq> None" by blast
          then show ?thesis by simp
        next
          case False
          with U1 have "old1 ! j = slots v ! j" by simp
          with live[OF j] show ?thesis by simp
        qed
        with U1 U2 j le show "old2 ! j \<noteq> None" by simp
      qed
    qed
  qed
qed

lemma Insert_inv_size_t:
  assumes g: "inv_size_t v"
  shows "Insert E v pos val = Inr (v', r) \<Longrightarrow> inv_size_t v'"
    and "Insert E v pos val = Inl (Threw ex v' blk) \<Longrightarrow> inv_size_t v'"
  using Emplace_inv_size_t[OF g] Emplace_Threw_inv_size_t[OF g]
  by (simp_all add: Insert_def)

lemma Reserve_inv_size_t:
  assumes g: "inv_size_t v" and e: "Reserve E v n = Inr v'"
  shows "inv_size_t v' \<and> size_m v' = size_m v \<and> n \<le> capacity_m (data_m v')"
proof -
  note R = Reserve_effect_live[OF inv_size_tD(1)[OF g] e]
  from R inv_size_tD(4)[OF g] have "length (slots v') < 2 ^ 64"
    by (auto split: if_splits)
  moreover from R have "n \<le> capacity_m (data_m v')"
    by (auto simp: Capacity_def split: if_splits)
  ultimately show ?thesis using R by (simp add: inv_size_t_def)
qed

lemma Reserve_Threw_inv_size_t:
  assumes g: "inv_size_t v" and e: "Reserve E v n = Inl (Threw ex v' blk)"
  shows "inv_size_t v'"
proof -
  from e have "v' = v \<or>
         (\<exists>dst old nd. UninitializedMoveOrCopy E (slots v) 0 (size_m v) dst 0
                          = Inl (Throw (old, nd)) \<and>
                        v' = v\<lparr>data_m := (data_m v)\<lparr>buffer_m := old\<rparr>\<rparr>)"
    by (auto simp: Reserve_def
             split: if_splits option.splits sum.splits fault.splits prod.splits)
  with g migrate_Throw_inv_size_t[OF g] show ?thesis by auto
qed

lemma Resize_inv_size_t:
  assumes g: "inv_size_t v"
  shows "Resize E v n = Inr v' \<Longrightarrow> inv_size_t v'"
    and "Resize E v n = Inl (Threw ex v' blk) \<Longrightarrow> inv_size_t v'"
proof -
  note le = inv_size_tD(2)[OF g]
  note live = inv_size_tD(3)[OF g]
  assume e: "Resize E v n = Inr v'"
  show "inv_size_t v'"
  proof (cases "n = size_m v")
    case True
    with e g show ?thesis by (simp add: Resize_def)
  next
    case False
    show ?thesis
    proof (cases "n < size_m v")
      case True
      with e False obtain m where d: "destroy_n (slots v) n (size_m v - n) = Some m"
        and v': "v' = \<lparr>data_m = (data_m v)\<lparr>buffer_m := m\<rparr>, size_m = n\<rparr>"
        by (auto simp: Resize_def split: option.splits)
      show ?thesis
      proof (rule inv_size_tI)
        from v' True inv_size_tD(5)[OF g] show "size_m v' \<le> capacity_m (data_m v')" by simp
        from destroy_n_length[OF d] v' le True show "size_m v' \<le> length (slots v')" by simp
        from destroy_n_length[OF d] v' inv_size_tD(4)[OF g]
        show "length (slots v') < 2 ^ 64" by simp
        show "\<forall>j<size_m v'. slots v' ! j \<noteq> None"
          using destroy_n_outside[OF d] v' True live by simp
      qed
    next
      case nlt: False
      with e False obtain v1 m where r: "Reserve E v n = Inr v1"
        and u: "uninitialized_value_construct_n E (slots v1) (size_m v1) (n - size_m v1) = Inr m"
        and v': "v' = \<lparr>data_m = (data_m v1)\<lparr>buffer_m := m\<rparr>, size_m = n\<rparr>"
        by (auto simp: Resize_def split: sum.splits fault.splits)
      note R = Reserve_inv_size_t[OF g r]
      note U = uninitialized_value_construct_n_Inr[OF u]
      from R False nlt have gt: "size_m v1 < n" by simp
      then have "n - size_m v1 - 1 < n - size_m v1" by simp
      with U have "size_m v1 + (n - size_m v1 - 1) < length (slots v1)" by blast
      with gt have room: "n \<le> length (slots v1)" by simp
      show ?thesis
      proof (rule inv_size_tI)
        from R v' show "size_m v' \<le> capacity_m (data_m v')" by simp
        from U room v' show "size_m v' \<le> length (slots v')" by simp
        from U R v' inv_size_tD(4)[of v1] show "length (slots v') < 2 ^ 64" by simp
        show "\<forall>j<size_m v'. slots v' ! j \<noteq> None"
        proof (intro allI impI)
          fix j assume "j < size_m v'"
          with v' have j: "j < n" by simp
          show "slots v' ! j \<noteq> None"
          proof (cases "j < size_m v1")
            case True
            with U have "m ! j = slots v1 ! j" by simp
            with True R inv_size_tD(3)[of v1 j] v' show ?thesis by simp
          next
            case False
            then obtain k where k: "j = size_m v1 + k"
              using le_Suc_ex[of "size_m v1" j] by auto
            with j have "k < n - size_m v1" by simp
            with U have "m ! (size_m v1 + k) = value_init E \<and> value_init E \<noteq> None" by blast
            with k v' show ?thesis by simp
          qed
        qed
      qed
    qed
  qed
next
  assume e: "Resize E v n = Inl (Threw ex v' blk)"
  then consider (res) "Reserve E v n = Inl (Threw ex v' blk)"
    | (con) v1 m where "Reserve E v n = Inr v1"
        "uninitialized_value_construct_n E (slots v1) (size_m v1) (n - size_m v1)
           = Inl (Throw m)"
        "v' = v1\<lparr>data_m := (data_m v1)\<lparr>buffer_m := m\<rparr>\<rparr>"
    by (auto simp: Resize_def split: if_splits option.splits sum.splits fault.splits)
  then show "inv_size_t v'"
  proof cases
    case res
    from Reserve_Threw_inv_size_t[OF g this] show ?thesis .
  next
    case con
    note R = Reserve_inv_size_t[OF g con(1)]
    note U = uninitialized_value_construct_n_Throw[OF con(2)]
    from R have g1: "inv_size_t v1" by simp
    show ?thesis unfolding con(3)
    proof (rule inv_size_t_data[OF g1])
      from U show "length m = length (slots v1)" by simp
      show "\<forall>j<size_m v1. m ! j \<noteq> None"
        using U inv_size_tD(3)[OF g1] by simp
    qed
  qed
qed

lemma Vector_copy_inv_size_t:
  assumes g: "inv_size_t other" and e: "Vector_copy E other = Inr c"
  shows "inv_size_t c"
proof -
  note R = Vector_copy_effect[OF inv_size_tD(1)[OF g] e]
  from R inv_size_tD(2,4)[OF g] have "length (slots c) < 2 ^ 64" by simp
  with R show ?thesis by (simp add: inv_size_t_def inv_iff)
qed

lemma Vector_sized_inv_size_t:
  assumes e: "Vector_sized E n = Inr c"
  shows "inv_size_t c"
proof -
  from e obtain b m where al: "Allocate E n = Some b"
    and u: "uninitialized_value_construct_n E b 0 n = Inr m"
    and c: "c = \<lparr>data_m = \<lparr>buffer_m = m, capacity_m = n\<rparr>, size_m = n\<rparr>"
    by (auto simp: Vector_sized_def RawMemory_ctor_def
             split: if_splits option.splits sum.splits fault.splits)
  note U = uninitialized_value_construct_n_Inr[OF u]
  have room: "n \<le> length b"
  proof (cases n)
    case 0
    then show ?thesis by simp
  next
    case (Suc k)
    then have "k < n" by simp
    with U have "0 + k < length b" by blast
    with Suc show ?thesis by simp
  qed
  show ?thesis
  proof (rule inv_size_tI)
    from c show "size_m c \<le> capacity_m (data_m c)" by simp
    from U c room show "size_m c \<le> length (slots c)" by simp
    from U c Allocate_length_size_t[OF al] show "length (slots c) < 2 ^ 64" by simp
    show "\<forall>j<size_m c. slots c ! j \<noteq> None"
    proof (intro allI impI)
      fix j assume "j < size_m c"
      with c have "j < n" by simp
      with U have "m ! (0 + j) = value_init E \<and> value_init E \<noteq> None" by blast
      with c show "slots c ! j \<noteq> None" by simp
    qed
  qed
qed

lemma operator_assign_copy_inv_size_t:
  assumes g: "inv_size_t v" and gr: "inv_size_t rhs"
    and e: "operator_assign_copy E v rhs = Inr v'"
  shows "inv_size_t v'"
proof -
  note R = operator_assign_copy_effect_live[OF inv_size_tD(1)[OF g] inv_size_tD(1)[OF gr] e]
  from R inv_size_tD(4)[OF g] inv_size_tD(2,4)[OF gr] have "length (slots v') < 2 ^ 64"
    by (auto split: if_splits)
  with R show ?thesis by (simp add: inv_size_t_def)
qed

lemma operator_assign_copy_Threw_inv_size_t:
  assumes g: "inv_size_t v" and e: "operator_assign_copy E v rhs = Inl (Threw ex v' blk)"
  shows "inv_size_t v'"
proof -
  note le = inv_size_tD(2)[OF g]
  note live = inv_size_tD(3)[OF g]
  have "v' = v
      \<or> (\<exists>n m. std_copy E (slots rhs) 0 n (slots v) 0 = Inl (Throw m) \<and>
                 v' = v\<lparr>data_m := (data_m v)\<lparr>buffer_m := m\<rparr>\<rparr>)
      \<or> (\<exists>m m'. std_copy E (slots rhs) 0 (size_m v) (slots v) 0 = Inr m \<and>
                 uninitialized_copy_n E (slots rhs) (size_m v) (size_m rhs - size_m v)
                   m (size_m v) = Inl (Throw m') \<and>
                 v' = v\<lparr>data_m := (data_m v)\<lparr>buffer_m := m'\<rparr>\<rparr>)"
  proof (cases "size_m rhs > Capacity (data_m v)")
    case True
    with e show ?thesis
      by (auto simp: operator_assign_copy_def Swap_def
               split: sum.splits abort.splits option.splits)
  next
    case False
    show ?thesis
    proof (cases "size_m rhs < size_m v")
      case True
      with e False show ?thesis
        by (auto simp: operator_assign_copy_def
                 split: sum.splits fault.splits option.splits)
    next
      case nlt: False
      with e False show ?thesis
        by (auto simp: operator_assign_copy_def
                 split: sum.splits fault.splits option.splits)
    qed
  qed
  then consider (same) "v' = v"
    | (assign) n m where "std_copy E (slots rhs) 0 n (slots v) 0 = Inl (Throw m)"
        "v' = v\<lparr>data_m := (data_m v)\<lparr>buffer_m := m\<rparr>\<rparr>"
    | (extend) m m' where "std_copy E (slots rhs) 0 (size_m v) (slots v) 0 = Inr m"
        "uninitialized_copy_n E (slots rhs) (size_m v) (size_m rhs - size_m v) m (size_m v)
           = Inl (Throw m')"
        "v' = v\<lparr>data_m := (data_m v)\<lparr>buffer_m := m'\<rparr>\<rparr>"
    by blast
  then show ?thesis
  proof cases
    case same
    with g show ?thesis by simp
  next
    case assign
    note S = std_copy_Throw[OF assign(1)]
    show ?thesis unfolding assign(2)
    proof (rule inv_size_t_data[OF g])
      from S show "length m = length (slots v)" by simp
      show "\<forall>j<size_m v. m ! j \<noteq> None" using S le live by auto
    qed
  next
    case extend
    note S = std_copy_Inr[OF extend(1)]
    note U = uninitialized_copy_n_Throw[OF extend(2)]
    show ?thesis unfolding extend(3)
    proof (rule inv_size_t_data[OF g])
      from S U show "length m' = length (slots v)" by simp
      show "\<forall>j<size_m v. m' ! j \<noteq> None"
      proof (intro allI impI)
        fix j assume j: "j < size_m v"
        with U have "m' ! j = m ! j" by simp
        moreover from j S have "m ! (0 + j) = slots rhs ! (0 + j) \<and> slots rhs ! (0 + j) \<noteq> None"
          by blast
        ultimately show "m' ! j \<noteq> None" by simp
      qed
    qed
  qed
qed

lemma moves_inv_size_t:
  assumes g: "inv_size_t v" and go: "inv_size_t other"
  shows "Vector_move other = (a, b) \<Longrightarrow> inv_size_t a \<and> inv_size_t b"
    and "Swap v other = (a, b) \<Longrightarrow> inv_size_t a \<and> inv_size_t b"
    and "operator_assign_move v other = (a, b) \<Longrightarrow> inv_size_t a \<and> inv_size_t b"
proof -
  have emp: "inv_size_t \<lparr>data_m = RawMemory_default, size_m = 0\<rparr>"
    by (rule inv_size_tI) (simp_all add: RawMemory_default_def)
  have cp: "inv_size_t \<lparr>data_m = data_m w, size_m = size_m w\<rparr>" if "inv_size_t w" for w :: "'a Vector"
    by (rule inv_size_tI) (use inv_size_tD[OF that] in simp_all)
  have zero: "inv_size_t \<lparr>data_m = data_m w, size_m = 0\<rparr>" if "inv_size_t w" for w :: "'a Vector"
    by (rule inv_size_tI) (use inv_size_tD(4)[OF that] in simp_all)
  show "Vector_move other = (a, b) \<Longrightarrow> inv_size_t a \<and> inv_size_t b"
    using emp cp[OF go] by (auto simp: Vector_move_def)
  show "Swap v other = (a, b) \<Longrightarrow> inv_size_t a \<and> inv_size_t b"
    using cp[OF go] cp[OF g] by (auto simp: Swap_def)
  show "operator_assign_move v other = (a, b) \<Longrightarrow> inv_size_t a \<and> inv_size_t b"
    using cp[OF go] zero[OF g] by (auto simp: operator_assign_move_def Swap_def)
qed

lemma in_set_updateD: "v \<in> set (s[i := x]) \<Longrightarrow> v = x \<or> v \<in> set s"
  using set_update_subset_insert[of s i x] by auto

lemma settle_preserves:
  assumes "\<forall>v\<in>set s. P v" and "settle s i res = Some s'"
    and "\<And>v'. res = Inr v' \<Longrightarrow> P v'"
    and "\<And>e v' blk. res = Inl (Threw e v' blk) \<Longrightarrow> P v'"
  shows "\<forall>v\<in>set s'. P v"
proof (cases res)
  case (Inr v')
  with assms(2) have "s' = s[i := v']" by (simp add: settle_def)
  with assms(1) assms(3)[OF Inr] show ?thesis by (auto dest: in_set_updateD)
next
  case (Inl a)
  show ?thesis
  proof (cases a)
    case (Threw e v' blk)
    with Inl assms(2) have "s' = s[i := v']" by (simp add: settle_def)
    moreover from Inl Threw have "res = Inl (Threw e v' blk)" by simp
    ultimately show ?thesis using assms(1) assms(4) by (auto dest: in_set_updateD)
  next
    case AssertionFailed
    with Inl assms(2) show ?thesis by (simp add: settle_def)
  next
    case UndefinedBehaviour
    with Inl assms(2) show ?thesis by (simp add: settle_def)
  qed
qed

lemma constructed_preserves:
  assumes "\<forall>v\<in>set s. P v" and "constructed s res = Some s'"
    and "\<And>v'. res = Inr v' \<Longrightarrow> P v'"
  shows "\<forall>v\<in>set s'. P v"
proof (cases res)
  case (Inr v')
  with assms(2) have "s' = s @ [v']" by (simp add: constructed_def)
  with assms(1) assms(3)[OF Inr] show ?thesis by auto
next
  case (Inl a)
  with assms(1,2) show ?thesis by (cases a) (simp_all add: constructed_def)
qed

lemma drop_result_Inr: "drop_result res = Inr v \<Longrightarrow> \<exists>r. res = Inr (v, r)"
  by (auto simp: drop_result_def split: sum.splits)

lemma drop_result_Inl: "drop_result res = Inl e \<Longrightarrow> res = Inl e"
  by (auto simp: drop_result_def split: sum.splits)

lemma step_preserves:
  assumes all: "\<forall>v\<in>set s. inv_size_t v" and st: "step E s c = Some s'"
  shows "\<forall>v\<in>set s'. inv_size_t v"
proof (cases c)
  case Construct_default
  have "inv_size_t (Vector_default :: 'a Vector)"
    by (rule inv_size_tI) (simp_all add: Vector_default_def RawMemory_default_def)
  with st all Construct_default show ?thesis by auto
next
  case (Construct_sized n)
  with st have "constructed s (Vector_sized E n) = Some s'" by simp
  from constructed_preserves[OF all this] Vector_sized_inv_size_t show ?thesis by blast
next
  case (Construct_copy j)
  with st have j: "j < length s" and "constructed s (Vector_copy E (s ! j)) = Some s'"
    by (simp_all split: if_splits)
  from j all have "inv_size_t (s ! j)" by simp
  from constructed_preserves[OF all \<open>constructed s (Vector_copy E (s ! j)) = Some s'\<close>]
    Vector_copy_inv_size_t[OF this] show ?thesis by blast
next
  case (Construct_move j)
  with st obtain a b where j: "j < length s" and m: "Vector_move (s ! j) = (a, b)"
    and s': "s' = s[j := b] @ [a]"
    by (auto split: if_splits prod.splits)
  from j all have g: "inv_size_t (s ! j)" by simp
  from moves_inv_size_t(1)[OF g g m] s' all show ?thesis by (auto dest: in_set_updateD)
next
  case (Call_EmplaceBack i arg)
  with st have i: "i < length s"
    and t: "settle s i (drop_result (EmplaceBack E (s ! i) arg)) = Some s'"
    by (simp_all split: if_splits)
  from i all have g: "inv_size_t (s ! i)" by simp
  show ?thesis
    by (rule settle_preserves[OF all t])
       (auto dest!: drop_result_Inr drop_result_Inl
             intro: EmplaceBack_inv_size_t[OF g] EmplaceBack_Threw_inv_size_t[OF g])
next
  case (Call_PushBack i val)
  with st have i: "i < length s" and t: "settle s i (PushBack E (s ! i) val) = Some s'"
    by (simp_all split: if_splits)
  from i all have g: "inv_size_t (s ! i)" by simp
  show ?thesis
    by (rule settle_preserves[OF all t]) (auto intro: PushBack_inv_size_t[OF g])
next
  case (Call_Emplace i pos arg)
  with st have i: "i < length s"
    and t: "settle s i (drop_result (Emplace E (s ! i) pos arg)) = Some s'"
    by (simp_all split: if_splits)
  from i all have g: "inv_size_t (s ! i)" by simp
  show ?thesis
    by (rule settle_preserves[OF all t])
       (auto dest!: drop_result_Inr drop_result_Inl
             intro: Emplace_inv_size_t[OF g] Emplace_Threw_inv_size_t[OF g])
next
  case (Call_Insert i pos val)
  with st have i: "i < length s"
    and t: "settle s i (drop_result (Insert E (s ! i) pos val)) = Some s'"
    by (simp_all split: if_splits)
  from i all have g: "inv_size_t (s ! i)" by simp
  show ?thesis
    by (rule settle_preserves[OF all t])
       (auto dest!: drop_result_Inr drop_result_Inl intro: Insert_inv_size_t[OF g])
next
  case (Call_PopBack i)
  with st have i: "i < length s" and t: "settle s i (PopBack (s ! i)) = Some s'"
    by (simp_all split: if_splits)
  from i all have g: "inv_size_t (s ! i)" by simp
  have nothrow: "PopBack (s ! i) \<noteq> Inl (Threw e v' blk)" for e v' blk
    by (simp add: PopBack_def split: option.splits)
  show ?thesis
    by (rule settle_preserves[OF all t]) (auto dest: PopBack_inv_size_t[OF g] simp: nothrow)
next
  case (Call_Erase i pos)
  with st have i: "i < length s"
    and t: "settle s i (drop_result (Erase E (s ! i) pos)) = Some s'"
    by (simp_all split: if_splits)
  from i all have g: "inv_size_t (s ! i)" by simp
  show ?thesis
    by (rule settle_preserves[OF all t])
       (auto dest!: drop_result_Inr drop_result_Inl
             intro: Erase_inv_size_t[OF g] Erase_Threw_inv_size_t[OF g])
next
  case (Call_assign_copy i j)
  show ?thesis
  proof (cases "i = j")
    case True
    with st Call_assign_copy all show ?thesis by (simp split: if_splits)
  next
    case False
    with st Call_assign_copy have i: "i < length s" and j: "j < length s"
      and t: "settle s i (operator_assign_copy E (s ! i) (s ! j)) = Some s'"
      by (simp_all split: if_splits)
    from i j all have g: "inv_size_t (s ! i)" and gr: "inv_size_t (s ! j)" by simp_all
    show ?thesis
      by (rule settle_preserves[OF all t])
         (auto intro: operator_assign_copy_inv_size_t[OF g gr]
                      operator_assign_copy_Threw_inv_size_t[OF g])
  qed
next
  case (Call_assign_move i j)
  show ?thesis
  proof (cases "i = j")
    case True
    with st Call_assign_move all show ?thesis by (simp split: if_splits)
  next
    case False
    with st Call_assign_move obtain a b where i: "i < length s" and j: "j < length s"
      and m: "operator_assign_move (s ! i) (s ! j) = (a, b)" and s': "s' = s[i := a, j := b]"
      by (auto split: if_splits prod.splits)
    from i j all have g: "inv_size_t (s ! i)" and gr: "inv_size_t (s ! j)" by simp_all
    from moves_inv_size_t(3)[OF g gr m] s' all show ?thesis
      by (auto dest!: in_set_updateD)
  qed
next
  case (Call_Swap i j)
  with st obtain a b where i: "i < length s" and j: "j < length s"
    and m: "Swap (s ! i) (s ! j) = (a, b)" and s': "s' = s[i := a, j := b]"
    by (auto split: if_splits prod.splits)
  from i j all have g: "inv_size_t (s ! i)" and gr: "inv_size_t (s ! j)" by simp_all
  from moves_inv_size_t(2)[OF g gr m] s' all show ?thesis
    by (auto dest!: in_set_updateD)
next
  case (Call_Reserve i n)
  with st have i: "i < length s" and t: "settle s i (Reserve E (s ! i) n) = Some s'"
    by (simp_all split: if_splits)
  from i all have g: "inv_size_t (s ! i)" by simp
  show ?thesis
    by (rule settle_preserves[OF all t])
       (auto dest: Reserve_inv_size_t[OF g] intro: Reserve_Threw_inv_size_t[OF g])
next
  case (Call_Resize i n)
  with st have i: "i < length s" and t: "settle s i (Resize E (s ! i) n) = Some s'"
    by (simp_all split: if_splits)
  from i all have g: "inv_size_t (s ! i)" by simp
  show ?thesis
    by (rule settle_preserves[OF all t]) (auto intro: Resize_inv_size_t[OF g])
next
  case (Call_index i index)
  with st all show ?thesis by (simp split: if_splits sum.splits)
qed

lemma run_preserves:
  "\<forall>v\<in>set s. inv_size_t v \<Longrightarrow> run E s cs = Some s' \<Longrightarrow> \<forall>v\<in>set s'. inv_size_t v"
proof (induction cs arbitrary: s)
  case Nil
  then show ?case by simp
next
  case (Cons c cs)
  from Cons.prems(2) obtain s1 where s1: "step E s c = Some s1" and r: "run E s1 cs = Some s'"
    by (auto split: option.splits)
  from step_preserves[OF Cons.prems(1) s1] have "\<forall>v\<in>set s1. inv_size_t v" .
  from Cons.IH[OF this r] show ?case .
qed

lemma append_all_trace:
  assumes "inv v" and "append_all E v xs = Inr tr"
  shows "length tr = length xs + 1 \<and> tr ! 0 = v \<and>
         (\<forall>k\<le>length xs. size_m (tr ! k) = size_m v + k \<and> inv (tr ! k) \<and>
                          elems (tr ! k) = elems v @ take k xs) \<and>
         (\<forall>k<length xs. Capacity (data_m (tr ! k)) \<le> Capacity (data_m (tr ! Suc k)))"
  using assms
proof (induction xs arbitrary: v tr)
  case Nil
  then show ?case by auto
next
  case (Cons x xs)
  from Cons.prems(2) obtain v1 r tr1 where e: "EmplaceBack E v (Some x) = Inr (v1, r)"
    and a: "append_all E v1 xs = Inr tr1" and tr: "tr = v # tr1"
    by (auto split: sum.splits)
  note R = EmplaceBack_effect[OF Cons.prems(1) e]
  from R have i1: "inv v1" by simp
  note IH = Cons.IH[OF i1 a]
  have len: "length tr = length (x # xs) + 1" using IH tr by simp
  have hd: "tr ! 0 = v" using tr by simp
  have st: "size_m (tr ! k) = size_m v + k \<and> inv (tr ! k) \<and>
            elems (tr ! k) = elems v @ take k (x # xs)" if "k \<le> length (x # xs)" for k
  proof (cases k)
    case 0
    with tr Cons.prems(1) show ?thesis by simp
  next
    case (Suc k')
    with that have "k' \<le> length xs" by simp
    with IH have "size_m (tr1 ! k') = size_m v1 + k' \<and> inv (tr1 ! k') \<and>
                  elems (tr1 ! k') = elems v1 @ take k' xs" by blast
    with Suc tr R show ?thesis by simp
  qed
  have mono: "Capacity (data_m (tr ! k)) \<le> Capacity (data_m (tr ! Suc k))"
    if "k < length (x # xs)" for k
  proof (cases k)
    case 0
    from IH have "tr1 ! 0 = v1" by simp
    with 0 tr R show ?thesis by (simp split: if_splits)
  next
    case (Suc k')
    with that have "k' < length xs" by simp
    with IH have "Capacity (data_m (tr1 ! k')) \<le> Capacity (data_m (tr1 ! Suc k'))" by blast
    with Suc tr show ?thesis by simp
  qed
  from len hd st mono show ?case by blast
qed

lemma append_all_total:
  assumes "inv v"
    and "\<forall>n. n \<le> max 1 (2 * (size_m v + length xs)) \<longrightarrow> allocates E n"
    and "list_all (\<lambda>y. \<not> move_ctor_throws E y \<and> \<not> copy_ctor_throws E y) (elems v @ xs)"
  shows "\<exists>tr. append_all E v xs = Inr tr"
  using assms
proof (induction xs arbitrary: v)
  case Nil
  then show ?case by simp
next
  case (Cons x xs)
  from Cons.prems(1) have le: "size_m v \<le> Capacity (data_m v)" by (simp add: inv_def)
  have "size_m v < Capacity (data_m v) \<or>
        (allocates E (max 1 (2 * Capacity (data_m v))) \<and>
         list_all (\<lambda>y. \<not> move_ctor_throws E y \<and> \<not> copy_ctor_throws E y) (elems v))"
  proof (cases "size_m v < Capacity (data_m v)")
    case True
    then show ?thesis by simp
  next
    case False
    with le have "Capacity (data_m v) = size_m v" by simp
    then have "max 1 (2 * Capacity (data_m v)) \<le> max 1 (2 * (size_m v + length (x # xs)))"
      by simp
    with Cons.prems(2) have "allocates E (max 1 (2 * Capacity (data_m v)))" by blast
    with Cons.prems(3) show ?thesis by simp
  qed
  from EmplaceBack_total[OF Cons.prems(1) this, of x] obtain v1 r
    where e: "EmplaceBack E v (Some x) = Inr (v1, r)" by blast
  note R = EmplaceBack_effect[OF Cons.prems(1) e]
  from R have i1: "inv v1" by simp
  have b: "\<forall>n. n \<le> max 1 (2 * (size_m v1 + length xs)) \<longrightarrow> allocates E n"
    using Cons.prems(2) R by simp
  have c: "list_all (\<lambda>y. \<not> move_ctor_throws E y \<and> \<not> copy_ctor_throws E y) (elems v1 @ xs)"
    using Cons.prems(3) R by simp
  from Cons.IH[OF i1 b c] obtain tr1 where "append_all E v1 xs = Inr tr1" by blast
  with e show ?case by simp
qed

lemma inv_Vector_default: "inv Vector_default"
  by (simp add: inv_def Vector_default_def RawMemory_default_def Capacity_def)

lemma PopBack_nonempty:
  assumes "inv v" and "0 < size_m v"
  shows "PopBack v = Inr \<lparr>data_m = (data_m v)\<lparr>buffer_m := (slots v)[size_m v - 1 := None]\<rparr>,
                         size_m = size_m v - 1\<rparr>"
proof -
  from assms have "size_m v - 1 < size_m v" by simp
  with assms(1) have "size_m v - 1 < length (slots v)" "slots v ! (size_m v - 1) \<noteq> None"
    by (auto simp: inv_iff inv_live_iff)
  with assms(2) show ?thesis
    by (auto simp: PopBack_def size_t_sub_def destroy_at_def)
qed

section \<open>Append\<close>

text \<open>
  C3. In the growth case of Append (size equal to capacity), when the constructor of the
  new element throws, the exception reaches the caller with the container exactly as it
  was before the call: same size, same block (so same capacity and same element values).
  The new block, which has the slots that fit into the bytes requested, is released with
  no live object in it. When the allocation of the new block fails first, the container
  is unchanged as well.
\<close>

theorem EmplaceBack_growth_ctor_throws_unchanged:
  assumes "size_m v = Capacity (data_m v)"
  shows "EmplaceBack E v None =
           (if alloc_fails E (size_t_mul (if size_m v = 0 then 1 else size_m v * 2) (sizeof_T E))
            then Inl (Threw bad_alloc v [])
            else Inl (Threw element_exception v
                        (replicate
                           (size_t_mul (if size_m v = 0 then 1 else size_m v * 2) (sizeof_T E)
                              div sizeof_T E) None)))"
  using assms by (simp add: EmplaceBack_def RawMemory_ctor_def Allocate_def)

theorem EmplaceBack_growth_ctor_throws_unchanged_witness:
  "size_m \<lparr>data_m = \<lparr>buffer_m = [Some (1::int), Some 2], capacity_m = 2\<rparr>,
           size_m = 2\<rparr> =
     Capacity (data_m \<lparr>data_m = \<lparr>buffer_m = [Some (1::int), Some 2], capacity_m = 2\<rparr>,
                       size_m = 2\<rparr>) \<and>
   EmplaceBack plain \<lparr>data_m = \<lparr>buffer_m = [Some 1, Some 2], capacity_m = 2\<rparr>,
                      size_m = 2\<rparr>
       None =
     Inl (Threw element_exception
            \<lparr>data_m = \<lparr>buffer_m = [Some 1, Some 2], capacity_m = 2\<rparr>,
             size_m = 2\<rparr>
            [None, None, None, None])"
proof -
  let ?v = "\<lparr>data_m = \<lparr>buffer_m = [Some (1::int), Some 2], capacity_m = 2\<rparr>,
             size_m = 2\<rparr>"
  have c: "size_m ?v = Capacity (data_m ?v)" by (simp add: Capacity_def)
  have r: "replicate (size_t_mul 4 4 div 4) (None :: int option) = [None, None, None, None]"
    by code_simp
  from EmplaceBack_growth_ctor_throws_unchanged[OF c, of plain] r c
  show ?thesis by (simp add: plain_def)
qed



section \<open>Remove last\<close>

text \<open>
  C2. \<^verbatim>\<open>PopBack\<close> on the empty container: the debug build reports no assertion failure.
  \<^verbatim>\<open>size_ - 1\<close> wraps to \<open>2^64 - 1\<close> and the destructor is called on a slot that does not
  exist.
\<close>

theorem PopBack_empty_no_assertion:
  "PopBack (Vector_default :: int Vector) = Inl UndefinedBehaviour
   \<and> PopBack (Vector_default :: int Vector) \<noteq> Inl AssertionFailed"
  by (simp add: PopBack_def Vector_default_def RawMemory_default_def size_t_sub_def
        destroy_at_def)

section \<open>Erase\<close>

text \<open>
  C6. \<^verbatim>\<open>Erase(p)\<close> with \<open>p < size\<close> on a container that satisfies the invariant: every call
  that returns has removed the element at \<open>p\<close> and moved the elements after it one slot to
  the left in their order, has destroyed the last slot of the old range, has decreased the
  size by one and has kept the capacity. The call does return when no move assignment of
  an element after \<open>p\<close> throws.
\<close>

theorem Erase_removes_element:
  assumes "inv v" and "p < size_m v"
  shows "(\<forall>v' r. Erase E v p = Inr (v', r) \<longrightarrow>
            elems v' = take p (elems v) @ drop (Suc p) (elems v) \<and>
            size_m v' = size_m v - 1 \<and>
            slots v' ! (size_m v - 1) = None \<and>
            Vector_Capacity v' = Vector_Capacity v \<and> inv v')
       \<and> (list_all (\<lambda>y. \<not> move_assign_throws E y) (drop (Suc p) (elems v))
          \<longrightarrow> (\<exists>v' r. Erase E v p = Inr (v', r)))"
proof (intro conjI allI impI)
  fix v' r assume "Erase E v p = Inr (v', r)"
  from Erase_effect[OF assms(1) this]
  show "elems v' = take p (elems v) @ drop (Suc p) (elems v)"
    "size_m v' = size_m v - 1" "slots v' ! (size_m v - 1) = None"
    "Vector_Capacity v' = Vector_Capacity v" "inv v'"
    by (auto simp: Vector_Capacity_def)
next
  assume nt: "list_all (\<lambda>y. \<not> move_assign_throws E y) (drop (Suc p) (elems v))"
  from assms(1) have "inv_live v" by (simp add: inv_iff)
  from Erase_total[OF this assms(2) nt] show "\<exists>v' r. Erase E v p = Inr (v', r)" by blast
qed

theorem Erase_removes_element_witness:
  "inv \<lparr>data_m = \<lparr>buffer_m = [Some (1::int), Some 99, Some 2, Some 3], capacity_m = 4\<rparr>,
        size_m = 4\<rparr> \<and> (1::nat) < 4 \<and>
   Erase plain \<lparr>data_m = \<lparr>buffer_m = [Some 1, Some 99, Some 2, Some 3], capacity_m = 4\<rparr>,
                size_m = 4\<rparr> 1 =
     Inr (\<lparr>data_m = \<lparr>buffer_m = [Some 1, Some 2, Some 3, None], capacity_m = 4\<rparr>,
           size_m = 3\<rparr>, 1) \<and>
   elems \<lparr>data_m = \<lparr>buffer_m = [Some 1, Some 2, Some 3, None], capacity_m = 4\<rparr>,
          size_m = 3\<rparr> = [1, 2, 3 :: int]"
proof -
  let ?v = "\<lparr>data_m = \<lparr>buffer_m = [Some (1::int), Some 99, Some 2, Some 3], capacity_m = 4\<rparr>,
             size_m = 4\<rparr>"
  let ?v' = "\<lparr>data_m = \<lparr>buffer_m = [Some (1::int), Some 2, Some 3, None], capacity_m = 4\<rparr>,
              size_m = 3\<rparr>"
  have i: "inv ?v" by (simp add: inv_def Capacity_def)
  have p: "1 < size_m ?v" by simp
  have e: "Erase plain ?v 1 = Inr (?v', 1)" by code_simp
  from Erase_removes_element[OF i p, of plain] e
  have "elems ?v' = take 1 (elems ?v) @ drop (Suc 1) (elems ?v)" by blast
  then have "elems ?v' = [1, 2, 3]" by (simp add: elems_def)
  with i e show ?thesis by simp
qed

text \<open>
  C10. \<^verbatim>\<open>Erase(p)\<close> with \<open>p < size\<close> returns the cursor \<open>p\<close>: the slot that now holds the
  element that followed the erased one, or the end cursor of the shrunk container when
  the last element was erased.
\<close>

theorem Erase_returns_position:
  assumes "inv v" and "p < size_m v"
  shows "(\<forall>v' r. Erase E v p = Inr (v', r) \<longrightarrow>
            r = p \<and>
            (Suc p < size_m v \<longrightarrow> slots v' ! r = Some (elems v ! Suc p)) \<and>
            (Suc p = size_m v \<longrightarrow> r = Vector_end v'))
       \<and> (list_all (\<lambda>y. \<not> move_assign_throws E y) (drop (Suc p) (elems v))
          \<longrightarrow> (\<exists>v'. Erase E v p = Inr (v', p)))"
proof (intro conjI allI impI)
  fix v' r assume e: "Erase E v p = Inr (v', r)"
  note R = Erase_effect[OF assms(1) e]
  from assms(1) have le: "size_m v \<le> length (slots v)" by (simp add: inv_iff inv_live_iff)
  from R show "r = p" by simp
  from R show "r = Vector_end v'" if "Suc p = size_m v" using that by simp
  show "slots v' ! r = Some (elems v ! Suc p)" if "Suc p < size_m v"
  proof -
    from R that have "p < size_m v'" "inv_live v'" by (simp_all add: inv_iff)
    from elems_nth[OF this(2) this(1)] R that length_elems[OF le]
    show ?thesis by (simp add: nth_append)
  qed
next
  assume nt: "list_all (\<lambda>y. \<not> move_assign_throws E y) (drop (Suc p) (elems v))"
  from assms(1) have "inv_live v" by (simp add: inv_iff)
  from Erase_total[OF this assms(2) nt] show "\<exists>v'. Erase E v p = Inr (v', p)" .
qed

theorem Erase_returns_position_witness:
  "inv \<lparr>data_m = \<lparr>buffer_m = [Some (7::int), Some 8, Some 9, None], capacity_m = 4\<rparr>,
        size_m = 3\<rparr> \<and> (0::nat) < 3 \<and>
   Erase plain \<lparr>data_m = \<lparr>buffer_m = [Some 7, Some 8, Some 9, None], capacity_m = 4\<rparr>,
                size_m = 3\<rparr> 0 =
     Inr (\<lparr>data_m = \<lparr>buffer_m = [Some 8, Some 9, None, None], capacity_m = 4\<rparr>,
           size_m = 2\<rparr>, 0) \<and>
   slots \<lparr>data_m = \<lparr>buffer_m = [Some (8::int), Some 9, None, None], capacity_m = 4\<rparr>,
          size_m = 2\<rparr> ! 0 =
     Some (elems \<lparr>data_m = \<lparr>buffer_m = [Some 7, Some 8, Some 9, None], capacity_m = 4\<rparr>,
                  size_m = 3\<rparr> ! Suc 0)"
proof -
  let ?v = "\<lparr>data_m = \<lparr>buffer_m = [Some (7::int), Some 8, Some 9, None], capacity_m = 4\<rparr>,
             size_m = 3\<rparr>"
  let ?v' = "\<lparr>data_m = \<lparr>buffer_m = [Some (8::int), Some 9, None, None], capacity_m = 4\<rparr>,
              size_m = 2\<rparr>"
  have i: "inv ?v" by (simp add: inv_def Capacity_def)
  have p: "0 < size_m ?v" by simp
  have e: "Erase plain ?v 0 = Inr (?v', 0)" by code_simp
  from Erase_returns_position[OF i p, of plain] e
  have "Suc 0 < size_m ?v \<longrightarrow> slots ?v' ! 0 = Some (elems ?v ! Suc 0)" by blast
  then have "slots ?v' ! 0 = Some (elems ?v ! Suc 0)" by simp
  with i e show ?thesis by simp
qed

section \<open>Reserve\<close>

text \<open>
  C7. \<^verbatim>\<open>Reserve(n)\<close> where the byte count \<^verbatim>\<open>n * sizeof(T)\<close> of \<^verbatim>\<open>Allocate\<close> wraps:
  \<^verbatim>\<open>Vector<int>\<close> and \<open>n = 2^62\<close>, so that the product is \<open>2^64\<close> and the request is for
  \<open>0\<close> bytes. \<^verbatim>\<open>operator new(0)\<close> does not throw, and the \<^verbatim>\<open>RawMemory\<close> has
  \<^verbatim>\<open>capacity_\<close> \<open>2^62\<close> over a block without a slot.

  On the container \<open>[1, 2, 3]\<close> the first element is then moved to a slot outside the new
  block: the behaviour is undefined, the capacity is not set and the elements are not
  kept. On the empty container the call returns; the container reports the capacity
  \<open>2^62\<close>, and the next append, for which \<open>size < capacity\<close>, writes outside the block.
\<close>

theorem Reserve_byte_count_wraps:
  "RawMemory_ctor plain (2 ^ 62) = Some \<lparr>buffer_m = [], capacity_m = 2 ^ 62\<rparr>
   \<and> Reserve plain
       \<lparr>data_m = \<lparr>buffer_m = [Some 1, Some 2, Some 3], capacity_m = 3\<rparr>,
        size_m = 3\<rparr>
       (2 ^ 62) = Inl UndefinedBehaviour
   \<and> Reserve plain Vector_default (2 ^ 62) =
       Inr \<lparr>data_m = \<lparr>buffer_m = [], capacity_m = 2 ^ 62\<rparr>, size_m = 0\<rparr>
   \<and> EmplaceBack plain \<lparr>data_m = \<lparr>buffer_m = [], capacity_m = 2 ^ 62\<rparr>,
                        size_m = 0\<rparr>
       (Some 1) = Inl UndefinedBehaviour"
  by code_simp

section \<open>Insert at a position\<close>

text \<open>
  C5. \<^verbatim>\<open>Insert(p, v)\<close> (and \<^verbatim>\<open>Emplace\<close>, which it calls) with \<open>p \<le> size\<close> on a container
  that satisfies the invariant: every call that returns has left the elements before \<open>p\<close>
  as they were, has put the new value at index \<open>p\<close>, has shifted the elements that were
  at \<open>[p, size)\<close> one slot to the right in their order, has increased the size by one and
  returns the cursor \<open>p\<close>. The call does return when there is room or the allocation
  succeeds (\<open>allocates\<close>), and no copy construction, move construction or move assignment
  of the new value or of an element throws.
\<close>

theorem Insert_at_position:
  assumes "inv v" and "p \<le> size_m v"
  shows "(\<forall>v' r. Emplace E v p (Some x) = Inr (v', r) \<longrightarrow>
            r = p \<and> size_m v' = size_m v + 1 \<and>
            elems v' = take p (elems v) @ [x] @ drop p (elems v) \<and>
            take p (elems v') = take p (elems v) \<and>
            elems v' ! p = x \<and>
            drop (Suc p) (elems v') = drop p (elems v) \<and> inv v')
       \<and> (\<forall>val v' r. Insert E v p val = Inr (v', r) \<longrightarrow>
            (\<exists>y. (val = Lvalue y \<or> val = Rvalue y) \<and> r = p \<and> size_m v' = size_m v + 1 \<and>
                 elems v' = take p (elems v) @ [y] @ drop p (elems v)))
       \<and> ((size_m v < Vector_Capacity v \<or> allocates E (max 1 (2 * Vector_Capacity v))) \<and>
          list_all (\<lambda>y. \<not> move_ctor_throws E y \<and> \<not> copy_ctor_throws E y \<and>
                        \<not> move_assign_throws E y) (x # elems v)
          \<longrightarrow> (\<exists>v'. Emplace E v p (Some x) = Inr (v', p)) \<and>
              (\<exists>v'. Insert E v p (Lvalue x) = Inr (v', p)) \<and>
              (\<exists>v'. Insert E v p (Rvalue x) = Inr (v', p)))"
proof (intro conjI allI impI)
  from assms(1) have le: "size_m v \<le> length (slots v)" by (simp add: inv_iff inv_live_iff)
  from assms(2) length_elems[OF le] have pl: "p \<le> length (elems v)" by simp
  fix v' r assume "Emplace E v p (Some x) = Inr (v', r)"
  note R = Emplace_effect[OF assms(1) this]
  from R show "r = p" "size_m v' = size_m v + 1" "inv v'"
    and el: "elems v' = take p (elems v) @ [x] @ drop p (elems v)" by simp_all
  from el pl show "take p (elems v') = take p (elems v)" by simp
  from el pl show "elems v' ! p = x" by (simp add: nth_append)
  from el pl show "drop (Suc p) (elems v') = drop p (elems v)" by simp
next
  fix val v' r assume "Insert E v p val = Inr (v', r)"
  from Insert_Inr[OF this] obtain y where y: "val = Lvalue y \<or> val = Rvalue y"
    and e: "Emplace E v p (Some y) = Inr (v', r)" by blast
  from Emplace_effect[OF assms(1) e] y
  show "\<exists>y. (val = Lvalue y \<or> val = Rvalue y) \<and> r = p \<and> size_m v' = size_m v + 1 \<and>
                 elems v' = take p (elems v) @ [y] @ drop p (elems v)"
    by blast
next
  assume ok: "(size_m v < Vector_Capacity v \<or> allocates E (max 1 (2 * Vector_Capacity v))) \<and>
          list_all (\<lambda>y. \<not> move_ctor_throws E y \<and> \<not> copy_ctor_throws E y \<and>
                        \<not> move_assign_throws E y) (x # elems v)"
  then have al: "size_m v < Capacity (data_m v) \<or>
                 allocates E (max 1 (2 * Capacity (data_m v)))"
    and nt: "list_all (\<lambda>y. \<not> move_ctor_throws E y \<and> \<not> copy_ctor_throws E y \<and>
                        \<not> move_assign_throws E y) (x # elems v)"
    by (simp_all add: Vector_Capacity_def)
  from Emplace_total[OF assms al nt]
  show t: "\<exists>v'. Emplace E v p (Some x) = Inr (v', p)" .
  from nt have "construct_from E (Lvalue x) = Some x" "construct_from E (Rvalue x) = Some x"
    by simp_all
  with t show "\<exists>v'. Insert E v p (Lvalue x) = Inr (v', p)"
    "\<exists>v'. Insert E v p (Rvalue x) = Inr (v', p)"
    by (simp_all add: Insert_def)
qed

theorem Insert_at_position_witness:
  "inv \<lparr>data_m = \<lparr>buffer_m = [Some (1::int), Some 2, Some 3, None], capacity_m = 4\<rparr>,
        size_m = 3\<rparr> \<and> (1::nat) \<le> 3 \<and>
   Insert plain \<lparr>data_m = \<lparr>buffer_m = [Some 1, Some 2, Some 3, None], capacity_m = 4\<rparr>,
                 size_m = 3\<rparr> 1 (Lvalue 99) =
     Inr (\<lparr>data_m = \<lparr>buffer_m = [Some 1, Some 99, Some 2, Some 3], capacity_m = 4\<rparr>,
           size_m = 4\<rparr>, 1) \<and>
   elems \<lparr>data_m = \<lparr>buffer_m = [Some 1, Some 99, Some 2, Some 3], capacity_m = 4\<rparr>,
          size_m = 4\<rparr> = [1, 99, 2, 3 :: int] \<and>
   inv \<lparr>data_m = \<lparr>buffer_m = [Some (1::int), Some 99, Some 2, Some 3], capacity_m = 4\<rparr>,
        size_m = 4\<rparr> \<and>
   Insert plain \<lparr>data_m = \<lparr>buffer_m = [Some 1, Some 99, Some 2, Some 3], capacity_m = 4\<rparr>,
                 size_m = 4\<rparr> 0 (Lvalue 7) =
     Inr (\<lparr>data_m = \<lparr>buffer_m = [Some 7, Some 1, Some 99, Some 2, Some 3, None, None, None], capacity_m = 8\<rparr>,
            size_m = 5\<rparr>, 0)"
proof -
  let ?v = "\<lparr>data_m = \<lparr>buffer_m = [Some (1::int), Some 2, Some 3, None], capacity_m = 4\<rparr>,
             size_m = 3\<rparr>"
  let ?v' = "\<lparr>data_m = \<lparr>buffer_m = [Some (1::int), Some 99, Some 2, Some 3], capacity_m = 4\<rparr>,
              size_m = 4\<rparr>"
  let ?v'' = "\<lparr>data_m = \<lparr>buffer_m = [Some (7::int), Some 1, Some 99, Some 2, Some 3, None, None, None], capacity_m = 8\<rparr>,
                size_m = 5\<rparr>"
  have i: "inv ?v" by (simp add: inv_def Capacity_def)
  have p: "1 \<le> size_m ?v" by simp
  have e: "Insert plain ?v 1 (Lvalue 99) = Inr (?v', 1)" by code_simp
  have e': "Insert plain ?v' 0 (Lvalue 7) = Inr (?v'', 0)" by code_simp
  from Insert_at_position[OF i p, of plain 99] e
  have "\<exists>y. (Lvalue (99::int) = Lvalue y \<or> Lvalue 99 = Rvalue y) \<and>
          elems ?v' = take 1 (elems ?v) @ [y] @ drop 1 (elems ?v)" by blast
  then have el: "elems ?v' = [1, 99, 2, 3]" by (simp add: elems_def)
  have "inv ?v'" by (simp add: inv_def Capacity_def)
  with i e e' el show ?thesis by simp
qed

text \<open>
  C1. \<^verbatim>\<open>Emplace\<close> on a full container of two elements, at position 1, so that the new
  element is constructed in slot 1 of a new block of four slots.

  When the copy of element 0 (the prefix) throws, the handler calls the destructor on
  slot \<^verbatim>\<open>size_\<close> = 2 of the new block, which holds no object, and not on slot 1: the
  behaviour is undefined and the new element is not destroyed.

  When the copy of element 1 (the suffix) throws, the handler destroys slots \<open>[0, 1)\<close> of
  the new block only: the exception reaches the caller with the container unchanged, and
  the new block is released with the new element still alive in slot 1.
\<close>

theorem Emplace_growth_failure_cleanup:
  "Emplace (copy_throws_on 1) \<lparr>data_m = \<lparr>buffer_m = [Some 1, Some 2], capacity_m = 2\<rparr>,
                               size_m = 2\<rparr> 1 (Some 9)
     = Inl UndefinedBehaviour
   \<and> Emplace (copy_throws_on 2) \<lparr>data_m = \<lparr>buffer_m = [Some 1, Some 2], capacity_m = 2\<rparr>,
                                 size_m = 2\<rparr> 1 (Some 9)
     = Inl (Threw element_exception \<lparr>data_m = \<lparr>buffer_m = [Some 1, Some 2], capacity_m = 2\<rparr>,
                                     size_m = 2\<rparr>
              [None, Some 9, None, None])"
  by code_simp

section \<open>Copy assignment\<close>

text \<open>
  C8. Copy assignment between two distinct containers that satisfy the invariant
  (\<^verbatim>\<open>rhs\<close> is \<^verbatim>\<open>const\<close>: the operation has no access that changes it, and the model
  does not return it). Every call that returns leaves the destination with the size and
  the element values of \<^verbatim>\<open>rhs\<close>. When \<open>rhs.size > capacity\<close> the destination is the
  copy that the copy constructor makes of \<^verbatim>\<open>rhs\<close>, swapped in. Otherwise the storage is
  reused: the capacity is unchanged, and when \<^verbatim>\<open>rhs\<close> is smaller the slots of the excess
  suffix are destroyed. The call does return when the allocation (if one is needed)
  succeeds (\<open>allocates\<close>) and no copy construction or copy assignment of an element of
  \<^verbatim>\<open>rhs\<close> throws.
\<close>

theorem operator_assign_copy_makes_equal:
  assumes "inv v" and "inv rhs"
  shows "(\<forall>v'. operator_assign_copy E v rhs = Inr v' \<longrightarrow>
            size_m v' = size_m rhs \<and> elems v' = elems rhs \<and> inv v' \<and>
            (size_m rhs > Vector_Capacity v \<longrightarrow>
               Vector_copy E rhs = Inr v' \<and> Vector_Capacity v' = size_m rhs) \<and>
            (size_m rhs \<le> Vector_Capacity v \<longrightarrow>
               Vector_Capacity v' = Vector_Capacity v \<and>
               (\<forall>j. size_m rhs \<le> j \<and> j < size_m v \<longrightarrow> slots v' ! j = None)))
       \<and> ((size_m rhs \<le> Vector_Capacity v \<or> allocates E (size_m rhs)) \<and>
          list_all (\<lambda>y. \<not> copy_ctor_throws E y \<and> \<not> copy_assign_throws E y) (elems rhs)
          \<longrightarrow> (\<exists>v'. operator_assign_copy E v rhs = Inr v'))"
proof (intro conjI allI impI)
  fix v' assume e: "operator_assign_copy E v rhs = Inr v'"
  note R = operator_assign_copy_effect[OF assms e]
  from R show "size_m v' = size_m rhs" "elems v' = elems rhs" "inv v'" by simp_all
  show "Vector_copy E rhs = Inr v'" if "size_m rhs > Vector_Capacity v"
    using operator_assign_copy_Inr_cases[OF e] that
    by (auto simp: Vector_Capacity_def Capacity_def)
  show "Vector_Capacity v' = size_m rhs" if "size_m rhs > Vector_Capacity v"
    using R that by (simp add: Vector_Capacity_def)
  show "Vector_Capacity v' = Vector_Capacity v" if "size_m rhs \<le> Vector_Capacity v"
    using R that by (simp add: Vector_Capacity_def)
  show "slots v' ! j = None"
    if "size_m rhs \<le> Vector_Capacity v" "size_m rhs \<le> j \<and> j < size_m v" for j
    using R that by (simp add: Vector_Capacity_def)
next
  assume "(size_m rhs \<le> Vector_Capacity v \<or> allocates E (size_m rhs)) \<and>
          list_all (\<lambda>y. \<not> copy_ctor_throws E y \<and> \<not> copy_assign_throws E y) (elems rhs)"
  then show "\<exists>v'. operator_assign_copy E v rhs = Inr v'"
    using operator_assign_copy_total[OF assms, of E] by (simp add: Vector_Capacity_def)
qed

theorem operator_assign_copy_makes_equal_witness:
  "inv \<lparr>data_m = \<lparr>buffer_m = [Some (99::int), Some 2, Some 3, None], capacity_m = 4\<rparr>,
        size_m = 3\<rparr> \<and>
   inv \<lparr>data_m = \<lparr>buffer_m = [Some (5::int), Some 6], capacity_m = 2\<rparr>,
        size_m = 2\<rparr> \<and>
   inv \<lparr>data_m = \<lparr>buffer_m = [Some (5::int), Some 6, Some 7, Some 8, Some 9], capacity_m = 5\<rparr>,
        size_m = 5\<rparr> \<and>
   operator_assign_copy plain \<lparr>data_m = \<lparr>buffer_m = [Some 99, Some 2, Some 3, None], capacity_m = 4\<rparr>,
                               size_m = 3\<rparr>
       \<lparr>data_m = \<lparr>buffer_m = [Some 5, Some 6], capacity_m = 2\<rparr>,
        size_m = 2\<rparr> =
     Inr \<lparr>data_m = \<lparr>buffer_m = [Some 5, Some 6, None, None], capacity_m = 4\<rparr>,
          size_m = 2\<rparr> \<and>
   elems \<lparr>data_m = \<lparr>buffer_m = [Some 5, Some 6, None, None], capacity_m = 4\<rparr>,
          size_m = 2\<rparr> =
     elems \<lparr>data_m = \<lparr>buffer_m = [Some (5::int), Some 6], capacity_m = 2\<rparr>,
            size_m = 2\<rparr> \<and>
   operator_assign_copy plain \<lparr>data_m = \<lparr>buffer_m = [Some 99, Some 2, Some 3, None], capacity_m = 4\<rparr>,
                               size_m = 3\<rparr>
       \<lparr>data_m = \<lparr>buffer_m = [Some 5, Some 6, Some 7, Some 8, Some 9], capacity_m = 5\<rparr>,
        size_m = 5\<rparr> =
     Inr \<lparr>data_m = \<lparr>buffer_m = [Some 5, Some 6, Some 7, Some 8, Some 9], capacity_m = 5\<rparr>,
          size_m = 5\<rparr>"
proof -
  let ?v = "\<lparr>data_m = \<lparr>buffer_m = [Some (99::int), Some 2, Some 3, None], capacity_m = 4\<rparr>,
             size_m = 3\<rparr>"
  let ?small = "\<lparr>data_m = \<lparr>buffer_m = [Some (5::int), Some 6], capacity_m = 2\<rparr>,
                 size_m = 2\<rparr>"
  let ?big = "\<lparr>data_m = \<lparr>buffer_m = [Some (5::int), Some 6, Some 7, Some 8, Some 9], capacity_m = 5\<rparr>,
               size_m = 5\<rparr>"
  let ?v' = "\<lparr>data_m = \<lparr>buffer_m = [Some (5::int), Some 6, None, None], capacity_m = 4\<rparr>,
              size_m = 2\<rparr>"
  have i: "inv ?v" and s: "inv ?small" and b: "inv ?big" by (simp_all add: inv_def Capacity_def)
  have e1: "operator_assign_copy plain ?v ?small = Inr ?v'" by code_simp
  have e2: "operator_assign_copy plain ?v ?big = Inr ?big" by code_simp
  from operator_assign_copy_makes_equal[OF i s, of plain] e1
  have "elems ?v' = elems ?small" by blast
  moreover from operator_assign_copy_makes_equal[OF i b, of plain] e2
  have "size_m ?big = size_m ?big" by blast
  ultimately show ?thesis using i s b e1 e2 by simp
qed

section \<open>The invariant\<close>

text \<open>
  C9. Every container that a client program holds after any sequence of calls of the
  public operations (the constructors, \<^verbatim>\<open>EmplaceBack\<close>, \<^verbatim>\<open>PushBack\<close>, \<^verbatim>\<open>Emplace\<close>,
  \<^verbatim>\<open>Insert\<close>, \<^verbatim>\<open>PopBack\<close>, \<^verbatim>\<open>Erase\<close>, both assignments, \<^verbatim>\<open>Swap\<close>, \<^verbatim>\<open>Reserve\<close>,
  \<^verbatim>\<open>Resize\<close>), including the containers left behind by caught exceptions, has
  \<open>size \<le> capacity\<close>, and its slots below \<open>size\<close> are slots of its block and hold live
  objects. This is so for every element type, every allocator and every argument of
  \<^verbatim>\<open>Reserve\<close>, \<^verbatim>\<open>Resize\<close> and \<^verbatim>\<open>Vector(size_t)\<close>, also those for which the byte count
  of the allocation wraps. A program that fails an assertion or has undefined behaviour
  has ended and holds no container.

  For \<open>N\<close> appends to the empty container: the trace has \<open>N + 1\<close> containers, the \<open>k\<close>-th
  has size \<open>k\<close>, at most its capacity, and holds the first \<open>k\<close> values; the capacity never
  decreases from one to the next; so the final size is \<open>N\<close>. The appends do all return
  when the allocations succeed and no copy or move construction of a value throws.
\<close>

theorem size_le_capacity_invariant:
  "(\<forall>cs s. run E [] cs = Some s \<longrightarrow>
         (\<forall>v\<in>set s. size_m v \<le> Vector_Capacity v \<and> inv_live v))
   \<and> (\<forall>xs trace. append_all E Vector_default xs = Inr trace \<longrightarrow>
         length trace = length xs + 1 \<and> size_m (last trace) = length xs \<and>
         (\<forall>k\<le>length xs. size_m (trace ! k) = k \<and>
                          size_m (trace ! k) \<le> Vector_Capacity (trace ! k) \<and>
                          elems (trace ! k) = take k xs) \<and>
         (\<forall>k<length xs. Vector_Capacity (trace ! k) \<le> Vector_Capacity (trace ! Suc k)))
   \<and> (\<forall>xs. (\<forall>n. n \<le> max 1 (2 * length xs) \<longrightarrow> allocates E n) \<and>
            list_all (\<lambda>y. \<not> move_ctor_throws E y \<and> \<not> copy_ctor_throws E y) xs \<longrightarrow>
            (\<exists>trace. append_all E Vector_default xs = Inr trace))"
proof -
  have p1: "\<forall>cs s. run E [] cs = Some s \<longrightarrow>
         (\<forall>v\<in>set s. size_m v \<le> Vector_Capacity v \<and> inv_live v)"
  proof (intro allI impI)
    fix cs s
    assume r: "run E [] cs = Some s"
    have "\<forall>v\<in>set []. inv_size_t (v :: 'a Vector)" by simp
    from run_preserves[OF this r]
    show "\<forall>v\<in>set s. size_m v \<le> Vector_Capacity v \<and> inv_live v"
      by (auto simp: inv_size_t_def inv_live_def Vector_Capacity_def)
  qed
  have p2: "\<forall>xs trace. append_all E Vector_default xs = Inr trace \<longrightarrow>
         length trace = length xs + 1 \<and> size_m (last trace) = length xs \<and>
         (\<forall>k\<le>length xs. size_m (trace ! k) = k \<and>
                          size_m (trace ! k) \<le> Vector_Capacity (trace ! k) \<and>
                          elems (trace ! k) = take k xs) \<and>
         (\<forall>k<length xs. Vector_Capacity (trace ! k) \<le> Vector_Capacity (trace ! Suc k))"
  proof (intro allI impI)
    fix xs trace assume a: "append_all E Vector_default xs = Inr trace"
    note T = append_all_trace[OF inv_Vector_default a]
    have s0: "size_m (Vector_default :: 'a Vector) = 0"
      "elems (Vector_default :: 'a Vector) = []"
      by (simp_all add: Vector_default_def elems_def)
    from T have len: "length trace = length xs + 1" by simp
    have st: "size_m (trace ! k) = k \<and>
              size_m (trace ! k) \<le> Vector_Capacity (trace ! k) \<and>
              elems (trace ! k) = take k xs" if "k \<le> length xs" for k
    proof -
      from T that have "size_m (trace ! k) = size_m (Vector_default :: 'a Vector) + k \<and>
          inv (trace ! k) \<and> elems (trace ! k) = elems (Vector_default :: 'a Vector) @ take k xs"
        by blast
      with s0 show ?thesis by (simp add: inv_def Vector_Capacity_def)
    qed
    from len have "last trace = trace ! length xs"
      by (cases trace rule: rev_cases) (simp_all add: nth_append)
    with st[of "length xs"] have fin: "size_m (last trace) = length xs" by simp
    from T have mono: "\<forall>k<length xs. Vector_Capacity (trace ! k) \<le> Vector_Capacity (trace ! Suc k)"
      by (simp add: Vector_Capacity_def)
    from len fin st mono
    show "length trace = length xs + 1 \<and> size_m (last trace) = length xs \<and>
         (\<forall>k\<le>length xs. size_m (trace ! k) = k \<and>
                          size_m (trace ! k) \<le> Vector_Capacity (trace ! k) \<and>
                          elems (trace ! k) = take k xs) \<and>
         (\<forall>k<length xs. Vector_Capacity (trace ! k) \<le> Vector_Capacity (trace ! Suc k))"
      by blast
  qed
  have p3: "\<forall>xs. (\<forall>n. n \<le> max 1 (2 * length xs) \<longrightarrow> allocates E n) \<and>
            list_all (\<lambda>y. \<not> move_ctor_throws E y \<and> \<not> copy_ctor_throws E y) xs \<longrightarrow>
            (\<exists>trace. append_all E Vector_default xs = Inr trace)"
  proof (intro allI impI)
    fix xs
    assume "(\<forall>n. n \<le> max 1 (2 * length xs) \<longrightarrow> allocates E n) \<and>
            list_all (\<lambda>y. \<not> move_ctor_throws E y \<and> \<not> copy_ctor_throws E y) xs"
    then show "\<exists>trace. append_all E Vector_default xs = Inr trace"
      using append_all_total[OF inv_Vector_default, of xs E]
      by (simp add: Vector_default_def RawMemory_default_def elems_def)
  qed
  from p1 p2 p3 show ?thesis by (intro conjI)
qed

theorem size_le_capacity_invariant_witness:
  "run plain []
     [Construct_default, Call_EmplaceBack 0 (Some 1), Call_EmplaceBack 0 (Some 2),
      Call_EmplaceBack 0 (Some 3), Call_Insert 0 1 (Lvalue 99), Call_Erase 0 0,
      Call_Resize 0 5]
     = Some [\<lparr>data_m = \<lparr>buffer_m = [Some 99, Some 2, Some 3, Some 0, Some 0], capacity_m = 5\<rparr>,
              size_m = 5\<rparr>] \<and>
   size_m \<lparr>data_m = \<lparr>buffer_m = [Some (99::int), Some 2, Some 3, Some 0, Some 0],
                      capacity_m = 5\<rparr>, size_m = 5\<rparr>
     \<le> Vector_Capacity \<lparr>data_m = \<lparr>buffer_m = [Some (99::int), Some 2, Some 3, Some 0, Some 0],
                                   capacity_m = 5\<rparr>, size_m = 5\<rparr> \<and>
   run plain [] [Construct_default, Call_Reserve 0 (2 ^ 62 + 2), Call_EmplaceBack 0 (Some 1)]
     = Some [\<lparr>data_m = \<lparr>buffer_m = [Some 1, None], capacity_m = 2 ^ 62 + 2\<rparr>,
              size_m = 1\<rparr>] \<and>
   inv_live \<lparr>data_m = \<lparr>buffer_m = [Some (1::int), None], capacity_m = 2 ^ 62 + 2\<rparr>,
             size_m = 1\<rparr> \<and>
   append_all plain Vector_default [1, 2, 3] =
     Inr [\<lparr>data_m = \<lparr>buffer_m = [], capacity_m = 0\<rparr>, size_m = 0\<rparr>,
          \<lparr>data_m = \<lparr>buffer_m = [Some 1], capacity_m = 1\<rparr>, size_m = 1\<rparr>,
          \<lparr>data_m = \<lparr>buffer_m = [Some 1, Some 2], capacity_m = 2\<rparr>,
           size_m = 2\<rparr>,
          \<lparr>data_m = \<lparr>buffer_m = [Some 1, Some 2, Some 3, None], capacity_m = 4\<rparr>,
           size_m = 3\<rparr>] \<and>
   size_m (last [\<lparr>data_m = \<lparr>buffer_m = [], capacity_m = 0\<rparr>, size_m = 0\<rparr>,
          \<lparr>data_m = \<lparr>buffer_m = [Some (1::int)], capacity_m = 1\<rparr>,
           size_m = 1\<rparr>,
          \<lparr>data_m = \<lparr>buffer_m = [Some 1, Some 2], capacity_m = 2\<rparr>,
           size_m = 2\<rparr>,
          \<lparr>data_m = \<lparr>buffer_m = [Some 1, Some 2, Some 3, None], capacity_m = 4\<rparr>,
           size_m = 3\<rparr>])
     = length [1, 2, 3 :: int]"
proof -
  let ?cs = "[Construct_default, Call_EmplaceBack 0 (Some 1), Call_EmplaceBack 0 (Some 2),
      Call_EmplaceBack 0 (Some 3), Call_Insert 0 1 (Lvalue 99), Call_Erase 0 0,
      Call_Resize 0 5]"
  let ?v = "\<lparr>data_m = \<lparr>buffer_m = [Some (99::int), Some 2, Some 3, Some 0, Some 0],
                         capacity_m = 5\<rparr>, size_m = 5\<rparr>"
  let ?ws = "[Construct_default, Call_Reserve 0 (2 ^ 62 + 2), Call_EmplaceBack 0 (Some (1::int))]"
  let ?w = "\<lparr>data_m = \<lparr>buffer_m = [Some (1::int), None], capacity_m = 2 ^ 62 + 2\<rparr>,
             size_m = 1\<rparr>"
  let ?tr = "[\<lparr>data_m = \<lparr>buffer_m = [], capacity_m = 0\<rparr>, size_m = 0\<rparr>,
          \<lparr>data_m = \<lparr>buffer_m = [Some (1::int)], capacity_m = 1\<rparr>,
           size_m = 1\<rparr>,
          \<lparr>data_m = \<lparr>buffer_m = [Some 1, Some 2], capacity_m = 2\<rparr>,
           size_m = 2\<rparr>,
          \<lparr>data_m = \<lparr>buffer_m = [Some 1, Some 2, Some 3, None], capacity_m = 4\<rparr>,
           size_m = 3\<rparr>]"
  have r: "run plain [] ?cs = Some [?v]" by code_simp
  have rw: "run plain [] ?ws = Some [?w]" by code_simp
  have a: "append_all plain Vector_default [1, 2, 3] = Inr ?tr" by code_simp
  note T = size_le_capacity_invariant[of plain]
  from T r have "\<forall>v\<in>set [?v]. size_m v \<le> Vector_Capacity v \<and> inv_live v" by blast
  then have c: "size_m ?v \<le> Vector_Capacity ?v" by simp
  from T rw have "\<forall>v\<in>set [?w]. size_m v \<le> Vector_Capacity v \<and> inv_live v" by blast
  then have cw: "inv_live ?w" by simp
  from T a have "size_m (last ?tr) = length [1, 2, 3 :: int]" by blast
  with r rw a c cw show ?thesis by blast
qed

end
